theory Spec2Isabelle
  imports Main
begin

section \<open>Checkpoints IPFS helper: the discovery and reconciliation loop of index.js\<close>

text \<open>
  The program is one script, \<^verbatim>\<open>index.js\<close>. After start-up it owns a single mutable
  variable, \<^verbatim>\<open>lastIPFSHash\<close>, and installs a handler for the \<^verbatim>\<open>tick\<close> event of a
  timer. The handler is a promise chain: resolve the latest hash from DNS, pin it when it
  differs from \<^verbatim>\<open>lastIPFSHash\<close>, then list the pins and remove the stale ones.

  DNS, the IPFS node and the timer are libraries outside the script. Their answers are
  inputs of the model (the record \<open>env\<close>), their calls and the log lines are its
  outputs (a list of \<open>effect\<close>s, in program order).
\<close>

subsection \<open>Data\<close>

text \<open>An entry of the list that \<^verbatim>\<open>node.pin.ls\<close> hands to its callback: the script
  reads the two fields \<^verbatim>\<open>pin.hash\<close> and \<^verbatim>\<open>pin.type\<close>, both strings.\<close>

record pin =
  hash :: string
  type :: string

text \<open>What a rejected promise of the chain carries. The two \<^verbatim>\<open>new Error(...)\<close> of
  \<^verbatim>\<open>getLatestCheckpointsIPFSHash\<close> keep the arguments of their format string; an error
  of the node is opaque and kept as its text.\<close>

datatype error =
    QueryError string string
  | RetrieveError string
  | NodeError string

datatype level = DEBUG | INFO | WARN | ERROR

text \<open>The log lines of the script, one constructor per format string.\<close>

datatype message =
    Detected string
  | Attempting string
  | Pinned string
  | TestCompleted
  | Unpinned string
  | Failure error
  | CouldNotPin "string option"

datatype call =
    ResolveTxt string
  | PinAdd string
  | PinLs
  | PinRm string

datatype effect =
    Log level message
  | Call call
  | Exit int

text \<open>The constants read from the environment at the top of the script.\<close>

record config =
  checkpointsHostname :: string
  testMinutes :: nat
  isTesting :: bool

definition default_config :: config where
  "default_config =
     \<lparr>checkpointsHostname = ''ipfs.moncoin.io'', testMinutes = 15, isTesting = False\<rparr>"

text \<open>The answers of the outside world during one pass: the outcome of
  \<^verbatim>\<open>DNS.resolveTxt\<close> for a name (an error text, or the records, each a list of
  strings), and for each call of the node the error it fails with, if any.\<close>

record env =
  resolveTxt :: "string \<Rightarrow> string + string list list"
  pin_add :: "string \<Rightarrow> string option"
  pin_ls :: "string option"
  pin_rm :: "string \<Rightarrow> string option"

text \<open>The state: the variable \<^verbatim>\<open>lastIPFSHash\<close> (\<^verbatim>\<open>undefined\<close> is \<open>None\<close>), the pins
  the node holds, the exit status once \<^verbatim>\<open>process.exit\<close> has been called, and the content
  the node can reach: for each identifier, the identifiers its content references,
  directly or through other content. Identifiers name immutable content, so \<open>links\<close>
  never changes.\<close>

record state =
  lastIPFSHash :: "string option"
  pinset :: "pin list"
  exited :: "int option"
  links :: "string \<Rightarrow> string list"

definition initial :: "pin list \<Rightarrow> (string \<Rightarrow> string list) \<Rightarrow> state" where
  "initial pins refs = \<lparr>lastIPFSHash = None, pinset = pins, exited = None, links = refs\<rparr>"

subsection \<open>The node's pin set\<close>

text \<open>Modelled from the spec: the IPFS node is an external library (the spec's Content
  Store Handle), so what its calls do to the pin set is taken from the spec's words.
  \<^verbatim>\<open>listPins\<close> returns the pin set. A pin is direct when its type is not
  \<^verbatim>\<open>'indirect'\<close>, the only type the script tells apart. Indirect pins exist only because
  some direct pin references them: \<^verbatim>\<open>addPin\<close> adds a direct pin for the identifier and
  an indirect pin for what its content references; \<^verbatim>\<open>removePin\<close> removes the direct
  pin of the identifier, and with it the indirect pins that no remaining direct pin
  references.\<close>

definition indirect :: "pin \<Rightarrow> bool" where
  "indirect p = (type p = ''indirect'')"

definition owned :: "(string \<Rightarrow> string list) \<Rightarrow> pin list \<Rightarrow> string \<Rightarrow> bool" where
  "owned refs pins x = list_ex (\<lambda>q. \<not> indirect q \<and> x \<in> set (refs (hash q))) pins"

definition retained :: "(string \<Rightarrow> string list) \<Rightarrow> pin list \<Rightarrow> pin list" where
  "retained refs pins = filter (\<lambda>p. \<not> indirect p \<or> owned refs pins (hash p)) pins"

definition store_add :: "(string \<Rightarrow> string list) \<Rightarrow> string \<Rightarrow> pin list \<Rightarrow> pin list" where
  "store_add refs h pins =
     (if list_ex (\<lambda>p. \<not> indirect p \<and> hash p = h) pins then pins
      else pins @ \<lparr>hash = h, type = ''recursive''\<rparr> #
           map (\<lambda>x. \<lparr>hash = x, type = ''indirect''\<rparr>)
             (filter (\<lambda>x. \<not> list_ex (\<lambda>p. hash p = x) pins \<and> x \<noteq> h) (remdups (refs h))))"

definition store_rm :: "(string \<Rightarrow> string list) \<Rightarrow> string \<Rightarrow> pin list \<Rightarrow> pin list" where
  "store_rm refs h pins = retained refs (filter (\<lambda>p. indirect p \<or> hash p \<noteq> h) pins)"

definition direct_pins :: "pin list \<Rightarrow> string set" where
  "direct_pins pins = set (map hash (filter (\<lambda>p. \<not> indirect p) pins))"

definition indirect_pins :: "pin list \<Rightarrow> pin list" where
  "indirect_pins pins = filter indirect pins"

subsection \<open>getLatestCheckpointsIPFSHash\<close>

text \<open>\<^verbatim>\<open>record.split('/')\<close>: the pieces between the separators, in order. An empty
  string gives one empty piece; the result is never empty.\<close>

fun split :: "char \<Rightarrow> string \<Rightarrow> string list" where
  "split sep [] = [[]]"
| "split sep (c # cs) =
     (if c = sep then [] # split sep cs
      else (case split sep cs of [] \<Rightarrow> [[c]] | w # ws \<Rightarrow> (c # w) # ws))"

text \<open>\<^verbatim>\<open>.pop()\<close> on the array of pieces, which has at least one element
  (lemma \<open>split_not_Nil\<close>).\<close>

definition pop :: "string list \<Rightarrow> string" where
  "pop pieces = last pieces"

definition dnslink :: "string \<Rightarrow> string" where
  "dnslink hostname = ''_dnslink.'' @ hostname"

text \<open>The callback handed to \<^verbatim>\<open>DNS.resolveTxt\<close>: what the promise settles with, given
  the answer (\<^verbatim>\<open>err\<close>, or the records).\<close>

definition resolveTxt_callback :: "string \<Rightarrow> string + string list list \<Rightarrow> error + string" where
  "resolveTxt_callback hostname answer =
     (case answer of
        Inl err \<Rightarrow> Inl (QueryError hostname err)
      | Inr records \<Rightarrow>
          (if length records = 0 \<or> length (records ! 0) = 0 then Inl (RetrieveError hostname)
           else Inr (pop (split CHR ''/'' (records ! 0 ! 0)))))"

definition getLatestCheckpointsIPFSHash :: "string \<Rightarrow> env \<Rightarrow> error + string" where
  "getLatestCheckpointsIPFSHash hostname e =
     resolveTxt_callback hostname (resolveTxt e (dnslink hostname))"

text \<open>The spec's words for the result: the substring after the final \<^verbatim>\<open>/\<close>.\<close>

definition after_final_slash :: "string \<Rightarrow> string" where
  "after_final_slash s = rev (takeWhile (\<lambda>c. c \<noteq> CHR ''/'') (rev s))"

subsection \<open>cleanPins\<close>

text \<open>The body of \<^verbatim>\<open>pinset.forEach\<close>: the hashes pushed on \<^verbatim>\<open>removedPins\<close>, for each
  of which \<^verbatim>\<open>unpin\<close> is called. \<^verbatim>\<open>hashToSave\<close> is the value of \<^verbatim>\<open>lastIPFSHash\<close>.\<close>

fun removedPins :: "string option \<Rightarrow> pin list \<Rightarrow> string list" where
  "removedPins hashToSave [] = []"
| "removedPins hashToSave (p # pins) =
     (if Some (hash p) = hashToSave then removedPins hashToSave pins
      else if type p = ''indirect'' then removedPins hashToSave pins
      else hash p # removedPins hashToSave pins)"

text \<open>\<^verbatim>\<open>unpin(hash)\<close>: the promise of one \<^verbatim>\<open>node.pin.rm\<close>, and the pin set after it.\<close>

definition unpin ::
  "env \<Rightarrow> (string \<Rightarrow> string list) \<Rightarrow> string \<Rightarrow> pin list \<Rightarrow> (error + string) \<times> pin list" where
  "unpin e refs h pins =
     (case pin_rm e h of
        Some err \<Rightarrow> (Inl (NodeError err), pins)
      | None \<Rightarrow> (Inr h, store_rm refs h pins))"

text \<open>All the \<^verbatim>\<open>unpin\<close> calls of the loop: every one is issued, whatever the others
  answer. The promises are listed in the order of the calls.\<close>

fun unpin_each ::
  "env \<Rightarrow> (string \<Rightarrow> string list) \<Rightarrow> string list \<Rightarrow> pin list \<Rightarrow> (error + string) list \<times> pin list" where
  "unpin_each e refs [] pins = ([], pins)"
| "unpin_each e refs (h # hs) pins =
     (case unpin e refs h pins of
        (r, pins') \<Rightarrow> (case unpin_each e refs hs pins' of (rs, pins'') \<Rightarrow> (r # rs, pins'')))"

text \<open>\<^verbatim>\<open>Promise.all\<close>: rejected with the first rejection, otherwise fulfilled with all
  the values. The promises are taken to settle in the order they were created.\<close>

fun promise_all :: "(error + 'a) list \<Rightarrow> error + 'a list" where
  "promise_all [] = Inr []"
| "promise_all (Inl err # ps) = Inl err"
| "promise_all (Inr v # ps) =
     (case promise_all ps of Inl err \<Rightarrow> Inl err | Inr vs \<Rightarrow> Inr (v # vs))"

definition cleanPins ::
  "env \<Rightarrow> (string \<Rightarrow> string list) \<Rightarrow> string option \<Rightarrow> pin list \<Rightarrow>
     (error + string list) \<times> pin list \<times> effect list" where
  "cleanPins e refs hashToSave pins =
     (case pin_ls e of
        Some err \<Rightarrow> (Inl (NodeError err), pins, [Call PinLs])
      | None \<Rightarrow>
          (let removed = removedPins hashToSave pins;
               (promises, pins') = unpin_each e refs removed pins
           in (case promise_all promises of
                 Inl err \<Rightarrow> Inl err
               | Inr _ \<Rightarrow> Inr removed,
               pins', Call PinLs # map (\<lambda>h. Call (PinRm h)) removed)))"

subsection \<open>The tick handler\<close>

text \<open>The last two callbacks of the chain: \<^verbatim>\<open>cleanPins(lastIPFSHash)\<close>, then one
  warning per unpinned hash, or the \<^verbatim>\<open>catch\<close> with its single warning.\<close>

definition prune :: "env \<Rightarrow> 'a state_scheme \<Rightarrow> 'a state_scheme \<times> effect list" where
  "prune e s =
     (case cleanPins e (links s) (lastIPFSHash s) (pinset s) of
        (Inl err, pins', calls) \<Rightarrow> (s\<lparr>pinset := pins'\<rparr>, calls @ [Log WARN (Failure err)])
      | (Inr pins, pins', calls) \<Rightarrow>
          (s\<lparr>pinset := pins'\<rparr>, calls @ map (\<lambda>h. Log WARN (Unpinned h)) pins))"

text \<open>One pass of the handler, run to its end before anything else happens. The 30-second
  timer of the test mode only writes debug lines while the pin is awaited and is left
  out.\<close>

definition tick :: "config \<Rightarrow> env \<Rightarrow> 'a state_scheme \<Rightarrow> 'a state_scheme \<times> effect list" where
  "tick cfg e s =
     (let query = Call (ResolveTxt (dnslink (checkpointsHostname cfg))) in
      case getLatestCheckpointsIPFSHash (checkpointsHostname cfg) e of
        Inl err \<Rightarrow> (s, [query, Log WARN (Failure err)])
      | Inr newHash \<Rightarrow>
          (if Some newHash \<noteq> lastIPFSHash s then
             (let s1 = s\<lparr>lastIPFSHash := Some newHash\<rparr>;
                  t1 = [query, Log INFO (Detected newHash), Log INFO (Attempting newHash),
                        Call (PinAdd newHash)]
              in case pin_add e newHash of
                   Some err \<Rightarrow> (s1, t1 @ [Log WARN (Failure (NodeError err))])
                 | None \<Rightarrow>
                     (let s2 = s1\<lparr>pinset := store_add (links s1) newHash (pinset s1)\<rparr>;
                          t2 = t1 @ [Log INFO (Pinned newHash)]
                      in if isTesting cfg
                         then (s2\<lparr>exited := Some 0\<rparr>, t2 @ [Log DEBUG TestCompleted, Exit 0])
                         else (case prune e s2 of (s3, t3) \<Rightarrow> (s3, t2 @ t3))))
           else (case prune e s of (s3, t3) \<Rightarrow> (s3, query # t3))))"

text \<open>Consecutive passes, one per answer of the outside world; nothing runs after
  \<^verbatim>\<open>process.exit\<close>.\<close>

fun ticks :: "config \<Rightarrow> env list \<Rightarrow> 'a state_scheme \<Rightarrow> 'a state_scheme \<times> effect list" where
  "ticks cfg [] s = (s, [])"
| "ticks cfg (e # es) s =
     (if exited s \<noteq> None then (s, [])
      else (case tick cfg e s of
              (s', t) \<Rightarrow> (case ticks cfg es s' of (s'', t') \<Rightarrow> (s'', t @ t'))))"

text \<open>The watchdog of the test mode: the callback of the \<^verbatim>\<open>setTimeout\<close> and its delay in
  milliseconds. The timeout is only set when \<^verbatim>\<open>isTesting\<close> holds.\<close>

definition watchdog_delay :: "config \<Rightarrow> nat" where
  "watchdog_delay cfg = 1000 * 60 * testMinutes cfg"

definition watchdog :: "config \<Rightarrow> 'a state_scheme \<Rightarrow> 'a state_scheme \<times> effect list" where
  "watchdog cfg s =
     (if isTesting cfg \<and> exited s = None
      then (s\<lparr>exited := Some 0\<rparr>, [Log ERROR (CouldNotPin (lastIPFSHash s)), Exit 0])
      else (s, []))"

subsection \<open>The handler as callbacks\<close>

text \<open>The script is event-driven: the timer's \<^verbatim>\<open>tick\<close>, the DNS callback, the settling of
  \<^verbatim>\<open>node.pin.add\<close> and the callbacks of \<^verbatim>\<open>node.pin.ls\<close> and \<^verbatim>\<open>node.pin.rm\<close> each run
  one piece of the chain to its next call. Between two pieces anything else may run, a
  later \<^verbatim>\<open>tick\<close> included. A chain started by a \<^verbatim>\<open>tick\<close> is at one of these stages:
  awaiting DNS; awaiting the pin of \<^verbatim>\<open>newHash\<close>; awaiting the listing, with the
  \<^verbatim>\<open>hashToSave\<close> it was called with; awaiting removals (\<^verbatim>\<open>removedPins\<close>, and the calls
  not yet answered); rejected and logged while removals are still unanswered; ended.\<close>

datatype stage =
    Resolving
  | Pinning string
  | Listing "string option"
  | Unpinning "string list" "string list"
  | Draining "string list"
  | Settled

record system = state +
  chains :: "stage list"

text \<open>What the outside world does next: the timer fires, or it answers a call of chain
  \<open>i\<close> (the chains are numbered in the order of their ticks), or the watchdog's timeout
  expires.\<close>

datatype event =
    Tick
  | TxtReply nat "string + string list list"
  | AddReply nat "string option"
  | LsReply nat "string option"
  | RmReply nat string "string option"
  | Timeout

definition boot :: "pin list \<Rightarrow> (string \<Rightarrow> string list) \<Rightarrow> system" where
  "boot pins refs =
     \<lparr>lastIPFSHash = None, pinset = pins, exited = None, links = refs, chains = []\<rparr>"

definition stage_of :: "system \<Rightarrow> nat \<Rightarrow> stage" where
  "stage_of sys i = (if i < length (chains sys) then chains sys ! i else Settled)"

definition become :: "nat \<Rightarrow> stage \<Rightarrow> system \<Rightarrow> system" where
  "become i st sys = sys\<lparr>chains := (chains sys)[i := st]\<rparr>"

text \<open>\<^verbatim>\<open>return cleanPins(lastIPFSHash)\<close>: the variable is read when the call is made.\<close>

definition then_cleanPins :: "nat \<Rightarrow> system \<Rightarrow> system \<times> effect list" where
  "then_cleanPins i sys = (become i (Listing (lastIPFSHash sys)) sys, [Call PinLs])"

text \<open>\<^verbatim>\<open>.catch(error => Logger.warn(error.toString()))\<close>, which ends the chain.\<close>

definition catch :: "nat \<Rightarrow> error \<Rightarrow> system \<Rightarrow> system \<times> effect list" where
  "catch i err sys = (become i Settled sys, [Log WARN (Failure err)])"

text \<open>The handler of \<^verbatim>\<open>tick\<close>: it calls \<^verbatim>\<open>getLatestCheckpointsIPFSHash()\<close> and returns.
  It tests nothing about the chains of earlier ticks.\<close>

definition on_tick :: "config \<Rightarrow> system \<Rightarrow> system \<times> effect list" where
  "on_tick cfg sys =
     (sys\<lparr>chains := chains sys @ [Resolving]\<rparr>,
      [Call (ResolveTxt (dnslink (checkpointsHostname cfg)))])"

text \<open>The DNS callback and the first \<^verbatim>\<open>then\<close>. With no pin to add, \<^verbatim>\<open>Promise.all([])\<close> is
  fulfilled at once and the second \<^verbatim>\<open>then\<close> runs too.\<close>

definition on_txt :: "config \<Rightarrow> nat \<Rightarrow> string + string list list \<Rightarrow> system \<Rightarrow> system \<times> effect list" where
  "on_txt cfg i answer sys =
     (case resolveTxt_callback (checkpointsHostname cfg) answer of
        Inl err \<Rightarrow> catch i err sys
      | Inr newHash \<Rightarrow>
          (if Some newHash \<noteq> lastIPFSHash sys
           then (become i (Pinning newHash) (sys\<lparr>lastIPFSHash := Some newHash\<rparr>),
                 [Log INFO (Detected newHash), Log INFO (Attempting newHash),
                  Call (PinAdd newHash)])
           else then_cleanPins i sys))"

text \<open>The settling of \<^verbatim>\<open>node.pin.add\<close> and the second \<^verbatim>\<open>then\<close>.\<close>

definition on_add :: "config \<Rightarrow> nat \<Rightarrow> string \<Rightarrow> string option \<Rightarrow> system \<Rightarrow> system \<times> effect list" where
  "on_add cfg i newHash answer sys =
     (case answer of
        Some err \<Rightarrow> catch i (NodeError err) sys
      | None \<Rightarrow>
          (let sys1 = sys\<lparr>pinset := store_add (links sys) newHash (pinset sys)\<rparr>
           in if isTesting cfg
              then (sys1\<lparr>exited := Some 0\<rparr>,
                    [Log INFO (Pinned newHash), Log DEBUG TestCompleted, Exit 0])
              else (case then_cleanPins i sys1 of
                      (sys2, t) \<Rightarrow> (sys2, Log INFO (Pinned newHash) # t))))"

text \<open>The callback of \<^verbatim>\<open>node.pin.ls\<close>: every \<^verbatim>\<open>unpin\<close> of the loop is called here. With
  nothing to remove \<^verbatim>\<open>Promise.all([])\<close> is fulfilled at once and the chain ends.\<close>

definition on_ls :: "nat \<Rightarrow> string option \<Rightarrow> string option \<Rightarrow> system \<Rightarrow> system \<times> effect list" where
  "on_ls i hashToSave answer sys =
     (case answer of
        Some err \<Rightarrow> catch i (NodeError err) sys
      | None \<Rightarrow>
          (let removed = removedPins hashToSave (pinset sys)
           in (become i (if removed = [] then Settled else Unpinning removed removed) sys,
               map (\<lambda>h. Call (PinRm h)) removed)))"

text \<open>The callback of one \<^verbatim>\<open>node.pin.rm\<close>. The first rejection rejects \<^verbatim>\<open>Promise.all\<close>,
  and the chain ends in its \<^verbatim>\<open>catch\<close>; the removals still unanswered go on in the
  node. When the last one is fulfilled the third \<^verbatim>\<open>then\<close> logs \<^verbatim>\<open>removedPins\<close>.\<close>

definition on_rm ::
  "nat \<Rightarrow> string list \<Rightarrow> string list \<Rightarrow> string \<Rightarrow> string option \<Rightarrow> system \<Rightarrow> system \<times> effect list" where
  "on_rm i removed waiting h answer sys =
     (case answer of
        Some err \<Rightarrow>
          (become i (if remove1 h waiting = [] then Settled else Draining (remove1 h waiting)) sys,
           [Log WARN (Failure (NodeError err))])
      | None \<Rightarrow>
          (let sys1 = sys\<lparr>pinset := store_rm (links sys) h (pinset sys)\<rparr>
           in if remove1 h waiting = []
              then (become i Settled sys1, map (\<lambda>h. Log WARN (Unpinned h)) removed)
              else (become i (Unpinning removed (remove1 h waiting)) sys1, [])))"

definition on_rm_late :: "nat \<Rightarrow> string list \<Rightarrow> string \<Rightarrow> string option \<Rightarrow> system \<Rightarrow> system \<times> effect list" where
  "on_rm_late i waiting h answer sys =
     (let sys1 = (case answer of
                    Some err \<Rightarrow> sys
                  | None \<Rightarrow> sys\<lparr>pinset := store_rm (links sys) h (pinset sys)\<rparr>)
      in (become i (if remove1 h waiting = [] then Settled else Draining (remove1 h waiting)) sys1,
          []))"

text \<open>One event. An answer that no call of the chain awaits changes nothing, and nothing
  runs after \<^verbatim>\<open>process.exit\<close>.\<close>

fun react :: "config \<Rightarrow> event \<Rightarrow> system \<Rightarrow> system \<times> effect list" where
  "react cfg Tick sys = on_tick cfg sys"
| "react cfg (TxtReply i answer) sys =
     (case stage_of sys i of
        Resolving \<Rightarrow> on_txt cfg i answer sys
      | _ \<Rightarrow> (sys, []))"
| "react cfg (AddReply i answer) sys =
     (case stage_of sys i of
        Pinning newHash \<Rightarrow> on_add cfg i newHash answer sys
      | _ \<Rightarrow> (sys, []))"
| "react cfg (LsReply i answer) sys =
     (case stage_of sys i of
        Listing hashToSave \<Rightarrow> on_ls i hashToSave answer sys
      | _ \<Rightarrow> (sys, []))"
| "react cfg (RmReply i h answer) sys =
     (case stage_of sys i of
        Unpinning removed waiting \<Rightarrow>
          (if h \<in> set waiting then on_rm i removed waiting h answer sys else (sys, []))
      | Draining waiting \<Rightarrow>
          (if h \<in> set waiting then on_rm_late i waiting h answer sys else (sys, []))
      | _ \<Rightarrow> (sys, []))"
| "react cfg Timeout sys = watchdog cfg sys"

definition step :: "config \<Rightarrow> event \<Rightarrow> system \<Rightarrow> system \<times> effect list" where
  "step cfg ev sys = (if exited sys \<noteq> None then (sys, []) else react cfg ev sys)"

fun run :: "config \<Rightarrow> event list \<Rightarrow> system \<Rightarrow> system \<times> effect list" where
  "run cfg [] sys = (sys, [])"
| "run cfg (ev # evs) sys =
     (case step cfg ev sys of
        (sys', t) \<Rightarrow> (case run cfg evs sys' of (sys'', t') \<Rightarrow> (sys'', t @ t')))"

text \<open>A chain is in flight until it has ended, in its last \<^verbatim>\<open>then\<close> or in its
  \<^verbatim>\<open>catch\<close>.\<close>

fun concluded :: "stage \<Rightarrow> bool" where
  "concluded Settled = True"
| "concluded (Draining waiting) = True"
| "concluded st = False"

definition in_flight :: "system \<Rightarrow> stage list" where
  "in_flight sys = filter (\<lambda>st. \<not> concluded st) (chains sys)"

text \<open>The events of a pass that runs alone: the tick, then the answer to each call the
  chain makes, the removals answered in the order of their calls. An answer to a call that
  was not made is in the list too; it changes nothing.\<close>

definition pass_events :: "config \<Rightarrow> env \<Rightarrow> 'a state_scheme \<Rightarrow> nat \<Rightarrow> event list" where
  "pass_events cfg e s i =
     Tick # TxtReply i (resolveTxt e (dnslink (checkpointsHostname cfg))) #
     (case getLatestCheckpointsIPFSHash (checkpointsHostname cfg) e of
        Inl err \<Rightarrow> []
      | Inr h \<Rightarrow>
          (if Some h \<noteq> lastIPFSHash s then [AddReply i (pin_add e h)] else []) @
          LsReply i (pin_ls e) #
          map (\<lambda>h'. RmReply i h' (pin_rm e h')) (removedPins (Some h) (pinset s)))"

subsection \<open>Reading a trace\<close>

text \<open>The hashes of the \<^verbatim>\<open>node.pin.rm\<close> calls, of the \<^verbatim>\<open>node.pin.add\<close> calls and of the
  unpinned warnings of a trace, and the errors of its failure warnings, in order.\<close>

fun rm_calls :: "effect list \<Rightarrow> string list" where
  "rm_calls [] = []"
| "rm_calls (Call (PinRm h) # t) = h # rm_calls t"
| "rm_calls (x # t) = rm_calls t"

fun add_calls :: "effect list \<Rightarrow> string list" where
  "add_calls [] = []"
| "add_calls (Call (PinAdd h) # t) = h # add_calls t"
| "add_calls (x # t) = add_calls t"

fun unpinned :: "effect list \<Rightarrow> string list" where
  "unpinned [] = []"
| "unpinned (Log l (Unpinned h) # t) = h # unpinned t"
| "unpinned (x # t) = unpinned t"

fun failures :: "effect list \<Rightarrow> error list" where
  "failures [] = []"
| "failures (Log l (Failure err) # t) = err # failures t"
| "failures (x # t) = failures t"

text \<open>The pins left by a pruning step whose listing succeeded. The direct pins kept are
  the one to save and those whose removal failed. When a removal succeeded, the indirect
  pins kept are those that a kept direct pin references.\<close>

definition survivors ::
  "env \<Rightarrow> (string \<Rightarrow> string list) \<Rightarrow> string option \<Rightarrow> pin list \<Rightarrow> pin list" where
  "survivors e refs hashToSave pins =
     (let kept = filter (\<lambda>p. indirect p \<or> Some (hash p) = hashToSave \<or> pin_rm e (hash p) \<noteq> None)
                   pins
      in if kept = pins then pins else retained refs kept)"

subsection \<open>Concrete inputs\<close>

text \<open>An outside world for examples: DNS answers every query with the given records, and
  the node fails exactly the calls listed, with the text listed.\<close>

definition world ::
  "string list list \<Rightarrow> (string \<times> string) list \<Rightarrow> string option \<Rightarrow> (string \<times> string) list \<Rightarrow> env" where
  "world records add_errors ls_error rm_errors =
     \<lparr>resolveTxt = (\<lambda>name. Inr records), pin_add = map_of add_errors,
      pin_ls = ls_error, pin_rm = map_of rm_errors\<rparr>"

definition dns_down :: "string \<Rightarrow> env" where
  "dns_down err =
     \<lparr>resolveTxt = (\<lambda>name. Inl err), pin_add = Map.empty, pin_ls = None, pin_rm = Map.empty\<rparr>"

text \<open>Content for examples: the identifiers listed reference what is listed with them,
  every other identifier references nothing.\<close>

definition content :: "(string \<times> string list) list \<Rightarrow> string \<Rightarrow> string list" where
  "content table h = (case map_of table h of None \<Rightarrow> [] | Some xs \<Rightarrow> xs)"

definition direct :: "string \<Rightarrow> pin" where
  "direct h = \<lparr>hash = h, type = ''recursive''\<rparr>"

definition implied :: "string \<Rightarrow> pin" where
  "implied h = \<lparr>hash = h, type = ''indirect''\<rparr>"

section \<open>Evaluation on concrete inputs\<close>

lemmas run =
  tick_def getLatestCheckpointsIPFSHash_def resolveTxt_callback_def pop_def dnslink_def prune_def cleanPins_def
  unpin_def store_rm_def store_add_def retained_def owned_def indirect_def Let_def
  world_def dns_down_def default_config_def initial_def direct_def implied_def content_def

section \<open>Version resolution\<close>

lemma split_not_Nil: "split sep s \<noteq> []"
  by (induction s) (auto split: list.splits)

lemma split_single: "split sep s = [w] \<Longrightarrow> sep \<notin> set s"
  by (induction s arbitrary: w) (auto simp: split_not_Nil split: if_splits list.splits)

lemma split_no_sep: "sep \<notin> set s \<Longrightarrow> split sep s = [s]"
  by (induction s) (auto split: list.splits)

lemma last_split: "last (split sep s) = rev (takeWhile (\<lambda>c. c \<noteq> sep) (rev s))"
proof (induction s)
  case Nil
  show ?case by simp
next
  case (Cons c cs)
  show ?case
  proof (cases "sep \<in> set cs")
    case True
    then have tw: "takeWhile (\<lambda>c. c \<noteq> sep) (rev cs @ [c]) = takeWhile (\<lambda>c. c \<noteq> sep) (rev cs)"
      by simp
    from True have "\<And>w. split sep cs \<noteq> [w]"
      using split_single by blast
    with Cons tw split_not_Nil [of sep cs] show ?thesis
      by (auto split: list.splits)
  next
    case False
    then have sp: "split sep cs = [cs]"
      by (rule split_no_sep)
    from False have "takeWhile (\<lambda>c. c \<noteq> sep) (rev cs @ [c]) = rev cs @ takeWhile (\<lambda>c. c \<noteq> sep) [c]"
      by (intro takeWhile_append2) auto
    with sp show ?thesis
      by simp
  qed
qed

lemma after_final_slash_no_slash: "CHR ''/'' \<notin> set (after_final_slash s)"
proof -
  have "\<And>x. x \<in> set (takeWhile (\<lambda>c. c \<noteq> CHR ''/'') (rev s)) \<Longrightarrow> x \<noteq> CHR ''/''"
    by (rule set_takeWhileD [THEN conjunct2])
  then show ?thesis
    unfolding after_final_slash_def by auto
qed

lemma after_final_slash_suffix:
  "s = rev (dropWhile (\<lambda>c. c \<noteq> CHR ''/'') (rev s)) @ after_final_slash s"
proof -
  have "rev s = takeWhile (\<lambda>c. c \<noteq> CHR ''/'') (rev s) @ dropWhile (\<lambda>c. c \<noteq> CHR ''/'') (rev s)"
    by simp
  then have "rev (rev s) = rev (takeWhile (\<lambda>c. c \<noteq> CHR ''/'') (rev s) @ dropWhile (\<lambda>c. c \<noteq> CHR ''/'') (rev s))"
    by (rule arg_cong)
  then show ?thesis
    unfolding after_final_slash_def by (simp only: rev_rev_ident rev_append)
qed

lemma pop_split: "pop (split CHR ''/'' s) = after_final_slash s"
  by (simp add: pop_def after_final_slash_def last_split)

text \<open>C5. The resolver fails exactly when the TXT query for \<^verbatim>\<open>_dnslink.<hostname>\<close> errors,
  when it returns no record, or when the first record is empty; otherwise it returns the
  substring after the final \<^verbatim>\<open>/\<close> of the first string of the first record.\<close>

theorem resolveLatest_cases:
  "getLatestCheckpointsIPFSHash hostname e =
     (case resolveTxt e (''_dnslink.'' @ hostname) of
        Inl err \<Rightarrow> Inl (QueryError hostname err)
      | Inr [] \<Rightarrow> Inl (RetrieveError hostname)
      | Inr ([] # records) \<Rightarrow> Inl (RetrieveError hostname)
      | Inr ((record # strings) # records) \<Rightarrow> Inr (after_final_slash record))"
  by (simp add: getLatestCheckpointsIPFSHash_def resolveTxt_callback_def dnslink_def pop_split
      split: sum.splits list.splits)

theorem resolveLatest_cases_witness:
  "getLatestCheckpointsIPFSHash ''ipfs.moncoin.io'' (world [[''dnslink=/ipfs/QmXYZ'']] [] None [])
     = Inr ''QmXYZ''
   \<and> getLatestCheckpointsIPFSHash ''ipfs.moncoin.io'' (world [] [] None [])
     = Inl (RetrieveError ''ipfs.moncoin.io'')
   \<and> getLatestCheckpointsIPFSHash ''ipfs.moncoin.io'' (world [[], [''dnslink=/ipfs/QmXYZ'']] [] None [])
     = Inl (RetrieveError ''ipfs.moncoin.io'')
   \<and> getLatestCheckpointsIPFSHash ''ipfs.moncoin.io'' (dns_down ''ENOTFOUND'')
     = Inl (QueryError ''ipfs.moncoin.io'' ''ENOTFOUND'')"
  using resolveLatest_cases [of "''ipfs.moncoin.io''" "world [[''dnslink=/ipfs/QmXYZ'']] [] None []"]
    resolveLatest_cases [of "''ipfs.moncoin.io''" "world [] [] None []"]
    resolveLatest_cases [of "''ipfs.moncoin.io''" "world [[], [''dnslink=/ipfs/QmXYZ'']] [] None []"]
    resolveLatest_cases [of "''ipfs.moncoin.io''" "dns_down ''ENOTFOUND''"]
  by (simp add: world_def dns_down_def after_final_slash_def)

text \<open>C10. Whenever the first string of the first record is non-empty the resolver
  succeeds, and the segment it extracts is not validated: a string that ends in \<^verbatim>\<open>/\<close>,
  such as \<^verbatim>\<open>dnslink=/ipfs/\<close>, resolves to the empty string.\<close>

theorem resolveLatest_unvalidated:
  assumes "resolveTxt e (dnslink hostname) = Inr ((record # strings) # records)"
    and "record \<noteq> []"
  shows "getLatestCheckpointsIPFSHash hostname e = Inr (after_final_slash record)
    \<and> (last record = CHR ''/'' \<longrightarrow> getLatestCheckpointsIPFSHash hostname e = Inr [])"
proof -
  have ok: "getLatestCheckpointsIPFSHash hostname e = Inr (after_final_slash record)"
    using assms(1)
    by (simp add: getLatestCheckpointsIPFSHash_def resolveTxt_callback_def pop_split)
  have "after_final_slash record = []" if "last record = CHR ''/''"
  proof -
    from assms(2) that have "hd (rev record) = CHR ''/''"
      by (simp add: hd_rev)
    with assms(2) have "takeWhile (\<lambda>c. c \<noteq> CHR ''/'') (rev record) = []"
      by (cases "rev record") auto
    then show ?thesis
      by (simp add: after_final_slash_def)
  qed
  with ok show ?thesis by simp
qed

theorem resolveLatest_unvalidated_witness:
  "getLatestCheckpointsIPFSHash ''ipfs.moncoin.io'' (world [[''dnslink=/ipfs/'']] [] None [])
     = Inr []"
  using resolveLatest_unvalidated [of "world [[''dnslink=/ipfs/'']] [] None []"
      "''ipfs.moncoin.io''" "''dnslink=/ipfs/''" "[]" "[]"]
  by (simp add: world_def after_final_slash_def)

section \<open>Traces\<close>

lemma rm_calls_append: "rm_calls (t @ u) = rm_calls t @ rm_calls u"
  by (induction t rule: rm_calls.induct) auto

lemma add_calls_append: "add_calls (t @ u) = add_calls t @ add_calls u"
  by (induction t rule: add_calls.induct) auto

lemma unpinned_append: "unpinned (t @ u) = unpinned t @ unpinned u"
  by (induction t rule: unpinned.induct) auto

lemma failures_append: "failures (t @ u) = failures t @ failures u"
  by (induction t rule: failures.induct) auto

lemma rm_calls_PinRm: "rm_calls (map (\<lambda>h. Call (PinRm h)) hs) = hs"
  by (induction hs) auto

lemma rm_calls_Log: "rm_calls (map (\<lambda>h. Log l (f h)) hs) = []"
  by (induction hs) auto

lemma add_calls_PinRm: "add_calls (map (\<lambda>h. Call (PinRm h)) hs) = []"
  by (induction hs) auto

lemma add_calls_Log: "add_calls (map (\<lambda>h. Log l (f h)) hs) = []"
  by (induction hs) auto

lemma unpinned_PinRm: "unpinned (map (\<lambda>h. Call (PinRm h)) hs) = []"
  by (induction hs) auto

lemma unpinned_Unpinned: "unpinned (map (\<lambda>h. Log l (Unpinned h)) hs) = hs"
  by (induction hs) auto

lemma failures_PinRm: "failures (map (\<lambda>h. Call (PinRm h)) hs) = []"
  by (induction hs) auto

lemma failures_Unpinned: "failures (map (\<lambda>h. Log l (Unpinned h)) hs) = []"
  by (induction hs) auto

section \<open>The pruning step\<close>

lemma removedPins_filter:
  "removedPins hashToSave pins =
     map hash (filter (\<lambda>p. Some (hash p) \<noteq> hashToSave \<and> \<not> indirect p) pins)"
  by (induction pins) (auto simp: indirect_def)

lemma removedPins_set:
  "set (removedPins hashToSave pins) =
     {h. h \<in> direct_pins pins \<and> Some h \<noteq> hashToSave}"
  by (auto simp: removedPins_filter direct_pins_def)

lemma unpin_each_fst:
  "fst (unpin_each e refs hs pins) =
     map (\<lambda>h. case pin_rm e h of Some err \<Rightarrow> Inl (NodeError err) | None \<Rightarrow> Inr h) hs"
  by (induction hs arbitrary: pins) (auto simp: unpin_def split_beta split: option.splits)

lemma owned_iff: "owned refs pins x = (\<exists>q\<in>set pins. \<not> indirect q \<and> x \<in> set (refs (hash q)))"
  by (simp add: owned_def list_ex_iff)

lemma owned_filter:
  "owned refs (filter (\<lambda>p. \<not> indirect p \<or> P p) pins) x = owned refs pins x"
  by (auto simp: owned_iff)

lemma retained_filter:
  assumes "\<And>p. indirect p \<Longrightarrow> Q p"
  shows "retained refs (filter Q (retained refs pins)) = retained refs (filter Q pins)"
proof -
  have own: "owned refs (filter Q (retained refs pins)) x = owned refs (filter Q pins) x" for x
    by (auto simp: owned_iff retained_def)
  have sub: "owned refs (filter Q pins) x \<Longrightarrow> owned refs pins x" for x
    by (auto simp: owned_iff)
  show ?thesis
    unfolding retained_def [of refs "filter Q pins"] retained_def [of refs "filter Q (retained refs pins)"]
    unfolding own
    by (auto simp: retained_def intro!: filter_cong dest: sub)
qed

lemma direct_pins_retained: "direct_pins (retained refs pins) = direct_pins pins"
  by (auto simp: direct_pins_def retained_def)

lemma unpin_each_snd:
  "snd (unpin_each e refs hs pins) =
     (if \<forall>h\<in>set hs. pin_rm e h \<noteq> None then pins
      else retained refs
        (filter (\<lambda>p. indirect p \<or> \<not> (hash p \<in> set hs \<and> pin_rm e (hash p) = None)) pins))"
proof (induction hs arbitrary: pins)
  case Nil
  show ?case by simp
next
  case (Cons h hs)
  show ?case
  proof (cases "pin_rm e h")
    case (Some err)
    have same: "filter (\<lambda>p. indirect p \<or> \<not> (hash p \<in> set (h # hs) \<and> pin_rm e (hash p) = None)) pins =
        filter (\<lambda>p. indirect p \<or> \<not> (hash p \<in> set hs \<and> pin_rm e (hash p) = None)) pins"
      using Some by (intro filter_cong) auto
    have step: "snd (unpin_each e refs (h # hs) pins) = snd (unpin_each e refs hs pins)"
      using Some by (simp add: unpin_def split_beta)
    have cond: "(\<forall>h'\<in>set (h # hs). pin_rm e h' \<noteq> None) = (\<forall>h'\<in>set hs. pin_rm e h' \<noteq> None)"
      using Some by simp
    show ?thesis
      by (simp only: step cond same Cons)
  next
    case None
    let ?Q = "\<lambda>p. indirect p \<or> \<not> (hash p \<in> set hs \<and> pin_rm e (hash p) = None)"
    let ?F = "\<lambda>p. indirect p \<or> hash p \<noteq> h"
    have both: "filter (\<lambda>p. indirect p \<or> \<not> (hash p \<in> set (h # hs) \<and> pin_rm e (hash p) = None)) pins =
        filter ?Q (filter ?F pins)"
      using None by (auto intro!: filter_cong)
    have step: "snd (unpin_each e refs (h # hs) pins) =
        snd (unpin_each e refs hs (retained refs (filter ?F pins)))"
      using None by (simp add: unpin_def split_beta store_rm_def)
    show ?thesis
    proof (cases "\<forall>h'\<in>set hs. pin_rm e h' \<noteq> None")
      case True
      then have "filter ?Q (filter ?F pins) = filter ?F pins"
        by (intro filter_True) auto
      with True None step both show ?thesis
        by (simp add: Cons)
    next
      case False
      have "retained refs (filter ?Q (retained refs (filter ?F pins))) =
          retained refs (filter ?Q (filter ?F pins))"
        by (rule retained_filter) simp
      with False None step both show ?thesis
        by (simp add: Cons)
    qed
  qed
qed

lemma unpin_removed:
  "snd (unpin_each e refs (removedPins hashToSave pins) pins) = survivors e refs hashToSave pins"
proof -
  let ?R = "removedPins hashToSave pins"
  let ?K = "\<lambda>p. indirect p \<or> Some (hash p) = hashToSave \<or> pin_rm e (hash p) \<noteq> None"
  have kept: "filter (\<lambda>p. indirect p \<or> \<not> (hash p \<in> set ?R \<and> pin_rm e (hash p) = None)) pins =
      filter ?K pins"
    by (rule filter_cong) (auto simp: removedPins_set direct_pins_def)
  have "(\<forall>h\<in>set ?R. pin_rm e h \<noteq> None) = (\<forall>p\<in>set pins. ?K p)"
    by (auto simp: removedPins_set direct_pins_def)
  also have "\<dots> = (filter ?K pins = pins)"
    by (simp add: filter_id_conv)
  finally show ?thesis
    by (simp only: unpin_each_snd kept survivors_def Let_def)
qed

lemma promise_all_unpin:
  "promise_all (map (\<lambda>h. case f h of Some err \<Rightarrow> Inl (NodeError err) | None \<Rightarrow> Inr h) hs) =
     (case List.map_filter f hs of [] \<Rightarrow> Inr hs | err # errs \<Rightarrow> Inl (NodeError err))"
  by (induction hs) (auto simp: List.map_filter_simps split: option.splits list.splits)

lemma map_filter_Nil: "(List.map_filter f xs = []) = (\<forall>x\<in>set xs. f x = None)"
  by (induction xs) (auto simp: List.map_filter_simps split: option.splits)

lemma cleanPins_eq:
  "cleanPins e refs hashToSave pins =
     (case pin_ls e of
        Some err \<Rightarrow> (Inl (NodeError err), pins, [Call PinLs])
      | None \<Rightarrow>
          (case List.map_filter (pin_rm e) (removedPins hashToSave pins) of
             [] \<Rightarrow> Inr (removedPins hashToSave pins)
           | err # errs \<Rightarrow> Inl (NodeError err),
           survivors e refs hashToSave pins,
           Call PinLs # map (\<lambda>h. Call (PinRm h)) (removedPins hashToSave pins)))"
proof (cases "pin_ls e")
  case None
  obtain ps pins' where u: "unpin_each e refs (removedPins hashToSave pins) pins = (ps, pins')"
    by (cases "unpin_each e refs (removedPins hashToSave pins) pins")
  from u have "ps = fst (unpin_each e refs (removedPins hashToSave pins) pins)"
    and "pins' = snd (unpin_each e refs (removedPins hashToSave pins) pins)"
    by simp_all
  then have ps: "ps = map (\<lambda>h. case pin_rm e h of Some err \<Rightarrow> Inl (NodeError err) | None \<Rightarrow> Inr h)
                        (removedPins hashToSave pins)"
    and pins': "pins' = survivors e refs hashToSave pins"
    by (simp_all only: unpin_each_fst unpin_removed)
  have "promise_all ps =
      (case List.map_filter (pin_rm e) (removedPins hashToSave pins) of
         [] \<Rightarrow> Inr (removedPins hashToSave pins) | err # errs \<Rightarrow> Inl (NodeError err))"
    unfolding ps by (rule promise_all_unpin)
  with None u pins' show ?thesis
    by (simp add: cleanPins_def Let_def split: list.splits)
next
  case (Some err)
  then show ?thesis by (simp add: cleanPins_def)
qed

lemma prune_eq:
  "prune e s =
     (case pin_ls e of
        Some err \<Rightarrow> (s, [Call PinLs, Log WARN (Failure (NodeError err))])
      | None \<Rightarrow>
          (s\<lparr>pinset := survivors e (links s) (lastIPFSHash s) (pinset s)\<rparr>,
           Call PinLs # map (\<lambda>h. Call (PinRm h)) (removedPins (lastIPFSHash s) (pinset s)) @
           (case List.map_filter (pin_rm e) (removedPins (lastIPFSHash s) (pinset s)) of
              [] \<Rightarrow> map (\<lambda>h. Log WARN (Unpinned h)) (removedPins (lastIPFSHash s) (pinset s))
            | err # errs \<Rightarrow> [Log WARN (Failure (NodeError err))])))"
  by (simp add: prune_def cleanPins_eq split: option.splits list.splits)

lemma prune_vars:
  "lastIPFSHash (fst (prune e s)) = lastIPFSHash s" "exited (fst (prune e s)) = exited s"
  by (simp_all add: prune_eq split: option.splits)

lemma prune_pinset:
  "pinset (fst (prune e s)) =
     (if pin_ls e = None then survivors e (links s) (lastIPFSHash s) (pinset s) else pinset s)"
  by (simp add: prune_eq split: option.splits)

lemma prune_rm_calls:
  "rm_calls (snd (prune e s)) =
     (if pin_ls e = None then removedPins (lastIPFSHash s) (pinset s) else [])"
  by (simp add: prune_eq rm_calls_append rm_calls_PinRm rm_calls_Log split: option.splits list.splits)

lemma prune_add_calls: "add_calls (snd (prune e s)) = []"
  by (simp add: prune_eq add_calls_append add_calls_PinRm add_calls_Log split: option.splits list.splits)

lemma prune_unpinned:
  "unpinned (snd (prune e s)) =
     (if pin_ls e = None \<and> List.map_filter (pin_rm e) (removedPins (lastIPFSHash s) (pinset s)) = []
      then removedPins (lastIPFSHash s) (pinset s) else [])"
  by (simp add: prune_eq unpinned_append unpinned_PinRm unpinned_Unpinned split: option.splits list.splits)

lemma prune_failures:
  "failures (snd (prune e s)) =
     (case pin_ls e of
        Some err \<Rightarrow> [NodeError err]
      | None \<Rightarrow> map NodeError (take 1 (List.map_filter (pin_rm e) (removedPins (lastIPFSHash s) (pinset s)))))"
  by (simp add: prune_eq failures_append failures_PinRm failures_Unpinned split: option.splits list.splits)

lemma direct_pins_survivors:
  "direct_pins (survivors e refs hashToSave pins) =
     {h \<in> direct_pins pins. Some h = hashToSave \<or> pin_rm e h \<noteq> None}"
proof -
  let ?K = "\<lambda>p. indirect p \<or> Some (hash p) = hashToSave \<or> pin_rm e (hash p) \<noteq> None"
  have "direct_pins (filter ?K pins) =
      {h \<in> direct_pins pins. Some h = hashToSave \<or> pin_rm e h \<noteq> None}"
    by (auto simp: direct_pins_def)
  then show ?thesis
    by (auto simp: survivors_def Let_def direct_pins_retained)
qed

lemma survivors_all_removed:
  assumes "\<forall>h\<in>set (removedPins hashToSave pins). pin_rm e h = None"
  shows "survivors e refs hashToSave pins =
     (if removedPins hashToSave pins = [] then pins
      else retained refs (filter (\<lambda>p. indirect p \<or> Some (hash p) = hashToSave) pins))"
proof -
  let ?K = "\<lambda>p. indirect p \<or> Some (hash p) = hashToSave \<or> pin_rm e (hash p) \<noteq> None"
  let ?S = "\<lambda>p. indirect p \<or> Some (hash p) = hashToSave"
  from assms have kept: "filter ?K pins = filter ?S pins"
    by (intro filter_cong) (auto simp: removedPins_set direct_pins_def)
  have "(filter ?S pins = pins) = (removedPins hashToSave pins = [])"
    by (auto simp: filter_id_conv removedPins_filter filter_empty_conv)
  with kept show ?thesis
    by (simp add: survivors_def Let_def)
qed

lemma indirect_pins_retained:
  "indirect_pins (retained refs pins) = filter (\<lambda>p. owned refs pins (hash p)) (indirect_pins pins)"
  by (auto simp: indirect_pins_def retained_def intro: filter_cong)

lemma prune_clean:
  assumes "failures (snd (prune e s)) = []"
  shows "pin_ls e = None"
    and "direct_pins (pinset (fst (prune e s))) = {h \<in> direct_pins (pinset s). Some h = lastIPFSHash s}"
    and "pinset (fst (prune e s)) =
      (if removedPins (lastIPFSHash s) (pinset s) = [] then pinset s
       else retained (links s)
         (filter (\<lambda>p. indirect p \<or> Some (hash p) = lastIPFSHash s) (pinset s)))"
    and "rm_calls (snd (prune e s)) = removedPins (lastIPFSHash s) (pinset s)"
proof -
  from assms show ls: "pin_ls e = None"
    by (simp add: prune_failures split: option.splits)
  with assms have "take 1 (List.map_filter (pin_rm e) (removedPins (lastIPFSHash s) (pinset s))) = []"
    by (simp add: prune_failures)
  then have "List.map_filter (pin_rm e) (removedPins (lastIPFSHash s) (pinset s)) = []"
    by simp
  then have ok: "\<forall>h\<in>set (removedPins (lastIPFSHash s) (pinset s)). pin_rm e h = None"
    by (simp only: map_filter_Nil)
  then show "direct_pins (pinset (fst (prune e s))) = {h \<in> direct_pins (pinset s). Some h = lastIPFSHash s}"
    using ls by (auto simp: prune_pinset direct_pins_survivors removedPins_set)
  from ls survivors_all_removed [OF ok] show "pinset (fst (prune e s)) =
      (if removedPins (lastIPFSHash s) (pinset s) = [] then pinset s
       else retained (links s)
         (filter (\<lambda>p. indirect p \<or> Some (hash p) = lastIPFSHash s) (pinset s)))"
    by (simp add: prune_pinset)
  from ls show "rm_calls (snd (prune e s)) = removedPins (lastIPFSHash s) (pinset s)"
    by (simp add: prune_rm_calls)
qed

lemma prune_noop:
  assumes "direct_pins (pinset s) \<subseteq> {h. Some h = lastIPFSHash s}"
  shows "fst (prune e s) = s"
proof -
  from assms have "\<forall>p\<in>set (pinset s). indirect p \<or> Some (hash p) = lastIPFSHash s"
    by (auto simp: direct_pins_def)
  then have "filter (\<lambda>p. indirect p \<or> Some (hash p) = lastIPFSHash s
      \<or> pin_rm e (hash p) \<noteq> None) (pinset s) = pinset s"
    by (intro filter_True) blast
  then have "survivors e (links s) (lastIPFSHash s) (pinset s) = pinset s"
    by (simp add: survivors_def)
  then show ?thesis
    by (simp add: prune_eq split: option.splits)
qed

section \<open>One pass\<close>

text \<open>The five ways a pass can go: resolution fails; the hash is the one already held;
  the pin fails; the pin succeeds in the test mode; the pin succeeds otherwise.\<close>

lemma tick_unresolved:
  "getLatestCheckpointsIPFSHash (checkpointsHostname cfg) e = Inl err \<Longrightarrow>
   tick cfg e s = (s, [Call (ResolveTxt (dnslink (checkpointsHostname cfg))), Log WARN (Failure err)])"
  by (simp add: tick_def)

lemma tick_unchanged:
  "getLatestCheckpointsIPFSHash (checkpointsHostname cfg) e = Inr h \<Longrightarrow> lastIPFSHash s = Some h \<Longrightarrow>
   tick cfg e s =
     (fst (prune e s), Call (ResolveTxt (dnslink (checkpointsHostname cfg))) # snd (prune e s))"
  by (simp add: tick_def split_beta)

lemma tick_pin_failed:
  "getLatestCheckpointsIPFSHash (checkpointsHostname cfg) e = Inr h \<Longrightarrow> lastIPFSHash s \<noteq> Some h \<Longrightarrow>
   pin_add e h = Some err \<Longrightarrow>
   tick cfg e s =
     (s\<lparr>lastIPFSHash := Some h\<rparr>,
      [Call (ResolveTxt (dnslink (checkpointsHostname cfg))), Log INFO (Detected h),
       Log INFO (Attempting h), Call (PinAdd h), Log WARN (Failure (NodeError err))])"
  by (auto simp: tick_def)

lemma tick_test_completed:
  "getLatestCheckpointsIPFSHash (checkpointsHostname cfg) e = Inr h \<Longrightarrow> lastIPFSHash s \<noteq> Some h \<Longrightarrow>
   pin_add e h = None \<Longrightarrow> isTesting cfg \<Longrightarrow>
   tick cfg e s =
     (s\<lparr>lastIPFSHash := Some h, pinset := store_add (links s) h (pinset s), exited := Some 0\<rparr>,
      [Call (ResolveTxt (dnslink (checkpointsHostname cfg))), Log INFO (Detected h),
       Log INFO (Attempting h), Call (PinAdd h), Log INFO (Pinned h),
       Log DEBUG TestCompleted, Exit 0])"
  by (auto simp: tick_def)

lemma tick_pinned:
  "getLatestCheckpointsIPFSHash (checkpointsHostname cfg) e = Inr h \<Longrightarrow> lastIPFSHash s \<noteq> Some h \<Longrightarrow>
   pin_add e h = None \<Longrightarrow> \<not> isTesting cfg \<Longrightarrow>
   tick cfg e s =
     (fst (prune e (s\<lparr>lastIPFSHash := Some h, pinset := store_add (links s) h (pinset s)\<rparr>)),
      [Call (ResolveTxt (dnslink (checkpointsHostname cfg))), Log INFO (Detected h),
       Log INFO (Attempting h), Call (PinAdd h), Log INFO (Pinned h)] @
      snd (prune e (s\<lparr>lastIPFSHash := Some h, pinset := store_add (links s) h (pinset s)\<rparr>)))"
  by (auto simp: tick_def split_beta Let_def)

lemma tick_cases [case_names unresolved unchanged pin_failed test_completed pinned]:
  obtains
    (unresolved) err where
      "getLatestCheckpointsIPFSHash (checkpointsHostname cfg) e = Inl err"
      "tick cfg e s =
         (s, [Call (ResolveTxt (dnslink (checkpointsHostname cfg))), Log WARN (Failure err)])"
  | (unchanged) h where
      "getLatestCheckpointsIPFSHash (checkpointsHostname cfg) e = Inr h" "lastIPFSHash s = Some h"
      "tick cfg e s =
         (fst (prune e s), Call (ResolveTxt (dnslink (checkpointsHostname cfg))) # snd (prune e s))"
  | (pin_failed) h err where
      "getLatestCheckpointsIPFSHash (checkpointsHostname cfg) e = Inr h" "lastIPFSHash s \<noteq> Some h"
      "pin_add e h = Some err"
      "tick cfg e s =
         (s\<lparr>lastIPFSHash := Some h\<rparr>,
          [Call (ResolveTxt (dnslink (checkpointsHostname cfg))), Log INFO (Detected h),
           Log INFO (Attempting h), Call (PinAdd h), Log WARN (Failure (NodeError err))])"
  | (test_completed) h where
      "getLatestCheckpointsIPFSHash (checkpointsHostname cfg) e = Inr h" "lastIPFSHash s \<noteq> Some h"
      "pin_add e h = None" "isTesting cfg"
      "tick cfg e s =
         (s\<lparr>lastIPFSHash := Some h, pinset := store_add (links s) h (pinset s), exited := Some 0\<rparr>,
          [Call (ResolveTxt (dnslink (checkpointsHostname cfg))), Log INFO (Detected h),
           Log INFO (Attempting h), Call (PinAdd h), Log INFO (Pinned h),
           Log DEBUG TestCompleted, Exit 0])"
  | (pinned) h where
      "getLatestCheckpointsIPFSHash (checkpointsHostname cfg) e = Inr h" "lastIPFSHash s \<noteq> Some h"
      "pin_add e h = None" "\<not> isTesting cfg"
      "tick cfg e s =
         (fst (prune e (s\<lparr>lastIPFSHash := Some h, pinset := store_add (links s) h (pinset s)\<rparr>)),
          [Call (ResolveTxt (dnslink (checkpointsHostname cfg))), Log INFO (Detected h),
           Log INFO (Attempting h), Call (PinAdd h), Log INFO (Pinned h)] @
          snd (prune e (s\<lparr>lastIPFSHash := Some h, pinset := store_add (links s) h (pinset s)\<rparr>)))"
proof (cases "getLatestCheckpointsIPFSHash (checkpointsHostname cfg) e")
  case (Inl err)
  then show ?thesis
    using tick_unresolved unresolved by blast
next
  case (Inr h)
  show ?thesis
  proof (cases "lastIPFSHash s = Some h")
    case True
    with Inr show ?thesis
      using tick_unchanged unchanged by blast
  next
    case False
    show ?thesis
    proof (cases "pin_add e h")
      case (Some err)
      with Inr False show ?thesis
        using tick_pin_failed pin_failed by blast
    next
      case None
      with Inr False show ?thesis
        using tick_test_completed tick_pinned test_completed pinned by blast
    qed
  qed
qed

lemma filter_direct_implied:
  "filter (\<lambda>p. \<not> indirect p) (map (\<lambda>x. \<lparr>hash = x, type = ''indirect''\<rparr>) xs) = []"
  by (induction xs) (simp_all add: indirect_def)

lemma direct_pins_store_add: "direct_pins (store_add refs h pins) = insert h (direct_pins pins)"
proof (cases "list_ex (\<lambda>p. \<not> indirect p \<and> hash p = h) pins")
  case True
  then show ?thesis
    by (auto simp: direct_pins_def store_add_def list_ex_iff)
next
  case False
  have "\<not> indirect \<lparr>hash = h, type = ''recursive''\<rparr>"
    by (simp add: indirect_def)
  with False show ?thesis
    by (simp add: direct_pins_def store_add_def filter_direct_implied)
qed

lemma store_add_present: "h \<in> direct_pins pins \<Longrightarrow> store_add refs h pins = pins"
  by (auto simp: store_add_def direct_pins_def list_ex_iff)

lemma removedPins_store_add:
  "removedPins (Some h) (store_add refs h pins) = removedPins (Some h) pins"
proof -
  have "\<And>x. indirect \<lparr>hash = x, type = ''indirect''\<rparr>"
    by (simp add: indirect_def)
  then show ?thesis
    by (simp add: removedPins_filter store_add_def filter_map comp_def)
qed

lemma tick_lastIPFSHash:
  "lastIPFSHash (fst (tick cfg e s)) =
     (case getLatestCheckpointsIPFSHash (checkpointsHostname cfg) e of
        Inl err \<Rightarrow> lastIPFSHash s | Inr h \<Rightarrow> Some h)"
  by (cases rule: tick_cases [of cfg e s]) (simp_all add: prune_vars)

lemma tick_rm_calls:
  "rm_calls (snd (tick cfg e s)) =
     (case getLatestCheckpointsIPFSHash (checkpointsHostname cfg) e of
        Inl err \<Rightarrow> []
      | Inr h \<Rightarrow>
          if lastIPFSHash s \<noteq> Some h \<and> (pin_add e h \<noteq> None \<or> isTesting cfg) then []
          else if pin_ls e \<noteq> None then []
          else removedPins (Some h) (pinset s))"
  by (cases rule: tick_cases [of cfg e s])
    (auto simp: prune_rm_calls removedPins_store_add)

lemma tick_add_calls:
  "add_calls (snd (tick cfg e s)) =
     (case getLatestCheckpointsIPFSHash (checkpointsHostname cfg) e of
        Inl err \<Rightarrow> []
      | Inr h \<Rightarrow> if lastIPFSHash s = Some h then [] else [h])"
  by (cases rule: tick_cases [of cfg e s])
    (auto simp: prune_add_calls)

lemma ticks_same_hash:
  assumes "lastIPFSHash s = Some X"
    and "\<forall>e\<in>set es. \<forall>Y. getLatestCheckpointsIPFSHash (checkpointsHostname cfg) e = Inr Y \<longrightarrow> Y = X"
  shows "add_calls (snd (ticks cfg es s)) = [] \<and> lastIPFSHash (fst (ticks cfg es s)) = Some X"
  using assms
proof (induction es arbitrary: s)
  case Nil
  then show ?case by simp
next
  case (Cons e es)
  from Cons.prems have here: "add_calls (snd (tick cfg e s)) = []"
    and there: "lastIPFSHash (fst (tick cfg e s)) = Some X"
    by (auto simp: tick_add_calls tick_lastIPFSHash split: sum.splits)
  from Cons.prems have "\<forall>e\<in>set es. \<forall>Y.
      getLatestCheckpointsIPFSHash (checkpointsHostname cfg) e = Inr Y \<longrightarrow> Y = X"
    by simp
  from Cons.IH [OF there this] here Cons.prems(1) show ?case
    by (simp add: split_beta add_calls_append)
qed

section \<open>A pass as a run of events\<close>

lemma step_exited: "exited sys \<noteq> None \<Longrightarrow> step cfg ev sys = (sys, [])"
  by (simp add: step_def)

lemma run_exited: "exited sys \<noteq> None \<Longrightarrow> run cfg evs sys = (sys, [])"
  by (induction evs) (auto simp: step_def)

lemma stage_of_become [simp]:
  "i < length (chains sys) \<Longrightarrow> stage_of (become i st sys) i = st"
  by (simp add: stage_of_def become_def)

lemma become_vars [simp]:
  "lastIPFSHash (become i st sys) = lastIPFSHash sys"
  "pinset (become i st sys) = pinset sys"
  "exited (become i st sys) = exited sys"
  "links (become i st sys) = links sys"
  "length (chains (become i st sys)) = length (chains sys)"
  by (simp_all add: become_def)

lemma run_settled_rm:
  "stage_of sys i = Settled \<Longrightarrow> run cfg (map (\<lambda>h. RmReply i h (f h)) hs) sys = (sys, [])"
  by (induction hs) (auto simp: step_def)

lemma run_draining:
  assumes "stage_of sys i = Draining (h # hs)" "i < length (chains sys)" "exited sys = None"
  shows "run cfg (map (\<lambda>h. RmReply i h (pin_rm e h)) (h # hs)) sys =
     (become i Settled (sys\<lparr>pinset := snd (unpin_each e (links sys) (h # hs) (pinset sys))\<rparr>), [])"
  using assms
proof (induction hs arbitrary: h sys)
  case Nil
  then show ?case
    by (cases "pin_rm e h") (auto simp: step_def on_rm_late_def unpin_def become_def)
next
  case (Cons h' hs)
  let ?sys1 = "case pin_rm e h of Some err \<Rightarrow> sys | None \<Rightarrow> sys\<lparr>pinset := store_rm (links sys) h (pinset sys)\<rparr>"
  have st: "step cfg (RmReply i h (pin_rm e h)) sys = (become i (Draining (h' # hs)) ?sys1, [])"
    using Cons.prems by (simp add: step_def on_rm_late_def)
  have "stage_of (become i (Draining (h' # hs)) ?sys1) i = Draining (h' # hs)"
    "i < length (chains (become i (Draining (h' # hs)) ?sys1))"
    "exited (become i (Draining (h' # hs)) ?sys1) = None"
    using Cons.prems by (auto split: option.splits)
  from Cons.IH [OF this] st show ?case
    by (cases "pin_rm e h") (auto simp: unpin_def split_beta become_def)
qed

lemma run_unpinning:
  assumes "stage_of sys i = Unpinning removed (h # hs)" "i < length (chains sys)" "exited sys = None"
  shows "run cfg (map (\<lambda>h. RmReply i h (pin_rm e h)) (h # hs)) sys =
     (become i Settled (sys\<lparr>pinset := snd (unpin_each e (links sys) (h # hs) (pinset sys))\<rparr>),
      case List.map_filter (pin_rm e) (h # hs) of
        [] \<Rightarrow> map (\<lambda>h. Log WARN (Unpinned h)) removed
      | err # errs \<Rightarrow> [Log WARN (Failure (NodeError err))])"
  using assms
proof (induction hs arbitrary: h sys)
  case Nil
  then show ?case
    by (cases "pin_rm e h")
      (auto simp: step_def on_rm_def unpin_def become_def List.map_filter_simps)
next
  case (Cons h' hs)
  show ?case
  proof (cases "pin_rm e h")
    case None
    let ?sys1 = "become i (Unpinning removed (h' # hs)) (sys\<lparr>pinset := store_rm (links sys) h (pinset sys)\<rparr>)"
    have st: "step cfg (RmReply i h (pin_rm e h)) sys = (?sys1, [])"
      using Cons.prems None by (simp add: step_def on_rm_def)
    have "stage_of ?sys1 i = Unpinning removed (h' # hs)" "i < length (chains ?sys1)"
      "exited ?sys1 = None"
      using Cons.prems by auto
    from Cons.IH [OF this] st None show ?thesis
      by (simp add: unpin_def split_beta become_def List.map_filter_simps)
  next
    case (Some err)
    let ?sys1 = "become i (Draining (h' # hs)) sys"
    have st: "step cfg (RmReply i h (pin_rm e h)) sys =
        (?sys1, [Log WARN (Failure (NodeError err))])"
      using Cons.prems Some by (simp add: step_def on_rm_def)
    have "stage_of ?sys1 i = Draining (h' # hs)" "i < length (chains ?sys1)"
      "exited ?sys1 = None"
      using Cons.prems by auto
    from run_draining [OF this] st Some show ?thesis
      by (simp add: unpin_def split_beta become_def List.map_filter_simps)
  qed
qed

lemma run_listing:
  assumes "stage_of sys i = Listing (lastIPFSHash sys)" "i < length (chains sys)"
    and "exited sys = None"
  shows "run cfg (LsReply i (pin_ls e) #
            map (\<lambda>h. RmReply i h (pin_rm e h)) (removedPins (lastIPFSHash sys) (pinset sys))) sys =
     (become i Settled (fst (prune e sys)), tl (snd (prune e sys)))"
proof (cases "pin_ls e")
  case (Some err)
  have st: "step cfg (LsReply i (pin_ls e)) sys =
      (become i Settled sys, [Log WARN (Failure (NodeError err))])"
    using assms Some by (simp add: step_def on_ls_def catch_def)
  have "stage_of (become i Settled sys) i = Settled"
    using assms by simp
  from run_settled_rm [OF this] st Some show ?thesis
    by (simp add: prune_eq)
next
  case None
  let ?R = "removedPins (lastIPFSHash sys) (pinset sys)"
  show ?thesis
  proof (cases ?R)
    case Nil
    then have "set (removedPins (lastIPFSHash sys) (pinset sys)) = {}"
      by simp
    then have "direct_pins (pinset sys) \<subseteq> {h. Some h = lastIPFSHash sys}"
      by (auto simp: removedPins_set)
    then have noop: "fst (prune e sys) = sys"
      by (rule prune_noop)
    have "snd (prune e sys) = [Call PinLs]"
      using None Nil by (simp add: prune_eq List.map_filter_simps)
    with noop assms None Nil show ?thesis
      by (simp add: step_def on_ls_def)
  next
    case (Cons h hs)
    let ?sys1 = "become i (Unpinning ?R ?R) sys"
    let ?log = "case List.map_filter (pin_rm e) ?R of
        [] \<Rightarrow> map (\<lambda>h. Log WARN (Unpinned h)) ?R
      | err # errs \<Rightarrow> [Log WARN (Failure (NodeError err))]"
    have st: "step cfg (LsReply i (pin_ls e)) sys = (?sys1, map (\<lambda>h. Call (PinRm h)) ?R)"
      using assms None Cons by (simp add: step_def on_ls_def Let_def)
    have "stage_of ?sys1 i = Unpinning ?R (h # hs)" "i < length (chains ?sys1)" "exited ?sys1 = None"
      using assms Cons by auto
    from run_unpinning [OF this, of cfg e]
    have ru: "run cfg (map (\<lambda>h. RmReply i h (pin_rm e h)) ?R) ?sys1 =
        (become i Settled (?sys1\<lparr>pinset := snd (unpin_each e (links ?sys1) ?R (pinset ?sys1))\<rparr>), ?log)"
      unfolding Cons [symmetric] .
    have "snd (unpin_each e (links ?sys1) ?R (pinset ?sys1)) = survivors e (links sys) (lastIPFSHash sys) (pinset sys)"
      by (simp only: unpin_removed become_vars)
    then have "become i Settled (?sys1\<lparr>pinset := snd (unpin_each e (links ?sys1) ?R (pinset ?sys1))\<rparr>) =
        become i Settled (sys\<lparr>pinset := survivors e (links sys) (lastIPFSHash sys) (pinset sys)\<rparr>)"
      by (simp add: become_def)
    with ru have ru': "run cfg (map (\<lambda>h. RmReply i h (pin_rm e h)) ?R) ?sys1 =
        (become i Settled (sys\<lparr>pinset := survivors e (links sys) (lastIPFSHash sys) (pinset sys)\<rparr>), ?log)"
      by simp
    have pr: "prune e sys = (sys\<lparr>pinset := survivors e (links sys) (lastIPFSHash sys) (pinset sys)\<rparr>,
        Call PinLs # map (\<lambda>h. Call (PinRm h)) ?R @ ?log)"
      using None by (simp add: prune_eq)
    have "run cfg (LsReply i (pin_ls e) # map (\<lambda>h. RmReply i h (pin_rm e h)) ?R) sys =
        (become i Settled (sys\<lparr>pinset := survivors e (links sys) (lastIPFSHash sys) (pinset sys)\<rparr>),
         map (\<lambda>h. Call (PinRm h)) ?R @ ?log)"
      by (simp only: run.simps st ru' prod.case)
    with pr show ?thesis
      by simp
  qed
qed

lemma run_settled:
  "stage_of sys i = Settled \<Longrightarrow>
   run cfg (LsReply i a # map (\<lambda>h. RmReply i h (f h)) hs) sys = (sys, [])"
  by (simp add: step_def run_settled_rm)

lemma prune_chains:
  "prune e (s\<lparr>chains := cs\<rparr>) = ((fst (prune e s))\<lparr>chains := cs\<rparr>, snd (prune e s))"
  by (simp add: prune_eq split: option.splits list.splits)

lemma prune_starts: "snd (prune e s) = Call PinLs # tl (snd (prune e s))"
  by (simp add: prune_eq split: option.splits)

lemma getLatest_callback:
  "resolveTxt_callback hostname (resolveTxt e (dnslink hostname)) =
     getLatestCheckpointsIPFSHash hostname e"
  by (simp add: getLatestCheckpointsIPFSHash_def)

lemma run_listing_new:
  assumes "exited s = None" "chains s = cs @ [Listing (lastIPFSHash s)]"
  shows "run cfg (LsReply (length cs) (pin_ls e) #
            map (\<lambda>h. RmReply (length cs) h (pin_rm e h)) (removedPins (lastIPFSHash s) (pinset s))) s =
     ((fst (prune e s))\<lparr>chains := cs @ [Settled]\<rparr>, tl (snd (prune e s)))"
proof -
  have "stage_of s (length cs) = Listing (lastIPFSHash s)" "length cs < length (chains s)"
    using assms by (simp_all add: stage_of_def)
  from run_listing [OF this assms(1), of cfg e]
  have "run cfg (LsReply (length cs) (pin_ls e) #
            map (\<lambda>h. RmReply (length cs) h (pin_rm e h)) (removedPins (lastIPFSHash s) (pinset s))) s =
     (become (length cs) Settled (fst (prune e s)), tl (snd (prune e s)))" .
  moreover have "chains (fst (prune e s)) = chains s"
    by (simp add: prune_eq split: option.splits)
  ultimately show ?thesis
    using assms(2) by (simp add: become_def)
qed

text \<open>The two readings of the handler agree: the events of a pass that runs alone take
  the event system to the state, and through the trace, of \<open>tick\<close>. The chain has ended
  unless the process has exited.\<close>

lemma run_pass:
  assumes alive: "exited sys = None"
  shows "\<exists>st. run cfg (pass_events cfg e sys (length (chains sys))) sys =
      ((fst (tick cfg e sys))\<lparr>chains := chains sys @ [st]\<rparr>, snd (tick cfg e sys))
    \<and> (exited (fst (tick cfg e sys)) = None \<longrightarrow> st = Settled)"
proof -
  let ?i = "length (chains sys)"
  let ?host = "checkpointsHostname cfg"
  let ?query = "Call (ResolveTxt (dnslink ?host))"
  let ?sys0 = "sys\<lparr>chains := chains sys @ [Resolving]\<rparr>"
  have tick0: "step cfg Tick sys = (?sys0, [?query])"
    using alive by (simp add: step_def on_tick_def)
  have reply: "step cfg (TxtReply ?i (resolveTxt e (dnslink ?host))) ?sys0 =
      on_txt cfg ?i (resolveTxt e (dnslink ?host)) ?sys0"
    using alive by (simp add: step_def stage_of_def)
  show ?thesis
  proof (cases rule: tick_cases [of cfg e sys])
    case (unresolved err)
    then have "run cfg (pass_events cfg e sys ?i) sys =
        ((fst (tick cfg e sys))\<lparr>chains := chains sys @ [Settled]\<rparr>, snd (tick cfg e sys))"
      by (simp add: pass_events_def tick0 reply on_txt_def getLatest_callback catch_def become_def)
    then show ?thesis by blast
  next
    case (unchanged h)
    let ?sys1 = "sys\<lparr>chains := chains sys @ [Listing (lastIPFSHash sys)]\<rparr>"
    have t: "on_txt cfg ?i (resolveTxt e (dnslink ?host)) ?sys0 = (?sys1, [Call PinLs])"
      using unchanged by (simp add: on_txt_def getLatest_callback then_cleanPins_def become_def)
    have "exited ?sys1 = None" "chains ?sys1 = chains sys @ [Listing (lastIPFSHash ?sys1)]"
      using alive by simp_all
    from run_listing_new [OF this, of cfg e]
    have "run cfg (LsReply ?i (pin_ls e) #
            map (\<lambda>h. RmReply ?i h (pin_rm e h)) (removedPins (Some h) (pinset sys))) ?sys1 =
        ((fst (prune e sys))\<lparr>chains := chains sys @ [Settled]\<rparr>, tl (snd (prune e sys)))"
      using unchanged by (simp add: prune_chains)
    with unchanged have "run cfg (pass_events cfg e sys ?i) sys =
        ((fst (tick cfg e sys))\<lparr>chains := chains sys @ [Settled]\<rparr>, snd (tick cfg e sys))"
      using prune_starts [of e sys] by (simp add: pass_events_def tick0 reply t)
    then show ?thesis by blast
  next
    case (pin_failed h err)
    let ?sys1 = "sys\<lparr>lastIPFSHash := Some h, chains := chains sys @ [Pinning h]\<rparr>"
    let ?sys2 = "sys\<lparr>lastIPFSHash := Some h, chains := chains sys @ [Settled]\<rparr>"
    have t: "on_txt cfg ?i (resolveTxt e (dnslink ?host)) ?sys0 =
        (?sys1, [Log INFO (Detected h), Log INFO (Attempting h), Call (PinAdd h)])"
      using pin_failed by (simp add: on_txt_def getLatest_callback become_def)
    have a: "step cfg (AddReply ?i (Some err)) ?sys1 =
        (?sys2, [Log WARN (Failure (NodeError err))])"
      using pin_failed alive by (simp add: step_def stage_of_def on_add_def catch_def become_def)
    have "stage_of ?sys2 ?i = Settled"
      by (simp add: stage_of_def)
    from run_settled [OF this] pin_failed have "run cfg (pass_events cfg e sys ?i) sys =
        ((fst (tick cfg e sys))\<lparr>chains := chains sys @ [Settled]\<rparr>, snd (tick cfg e sys))"
      by (simp add: pass_events_def tick0 reply t a)
    then show ?thesis by blast
  next
    case (test_completed h)
    let ?sys1 = "sys\<lparr>lastIPFSHash := Some h, chains := chains sys @ [Pinning h]\<rparr>"
    let ?sys2 = "sys\<lparr>lastIPFSHash := Some h, pinset := store_add (links sys) h (pinset sys),
        exited := Some 0, chains := chains sys @ [Pinning h]\<rparr>"
    have t: "on_txt cfg ?i (resolveTxt e (dnslink ?host)) ?sys0 =
        (?sys1, [Log INFO (Detected h), Log INFO (Attempting h), Call (PinAdd h)])"
      using test_completed by (simp add: on_txt_def getLatest_callback become_def)
    have a: "step cfg (AddReply ?i None) ?sys1 =
        (?sys2, [Log INFO (Pinned h), Log DEBUG TestCompleted, Exit 0])"
      using test_completed alive by (simp add: step_def stage_of_def on_add_def)
    from test_completed have "run cfg (pass_events cfg e sys ?i) sys =
        ((fst (tick cfg e sys))\<lparr>chains := chains sys @ [Pinning h]\<rparr>, snd (tick cfg e sys))"
      by (simp add: pass_events_def tick0 reply t a step_exited run_exited)
    with test_completed show ?thesis by auto
  next
    case (pinned h)
    let ?s = "sys\<lparr>lastIPFSHash := Some h, pinset := store_add (links sys) h (pinset sys)\<rparr>"
    let ?sys1 = "sys\<lparr>lastIPFSHash := Some h, chains := chains sys @ [Pinning h]\<rparr>"
    let ?sys2 = "?s\<lparr>chains := chains sys @ [Listing (Some h)]\<rparr>"
    have t: "on_txt cfg ?i (resolveTxt e (dnslink ?host)) ?sys0 =
        (?sys1, [Log INFO (Detected h), Log INFO (Attempting h), Call (PinAdd h)])"
      using pinned by (simp add: on_txt_def getLatest_callback become_def)
    have a: "step cfg (AddReply ?i None) ?sys1 =
        (?sys2, [Log INFO (Pinned h), Call PinLs])"
      using pinned alive
      by (simp add: step_def stage_of_def on_add_def then_cleanPins_def become_def)
    have "exited ?sys2 = None" "chains ?sys2 = chains sys @ [Listing (lastIPFSHash ?sys2)]"
      using alive by simp_all
    from run_listing_new [OF this, of cfg e]
    have "run cfg (LsReply ?i (pin_ls e) #
            map (\<lambda>h. RmReply ?i h (pin_rm e h)) (removedPins (Some h) (pinset sys))) ?sys2 =
        ((fst (prune e ?s))\<lparr>chains := chains sys @ [Settled]\<rparr>, tl (snd (prune e ?s)))"
      by (simp add: prune_chains removedPins_store_add)
    with pinned have "run cfg (pass_events cfg e sys ?i) sys =
        ((fst (tick cfg e sys))\<lparr>chains := chains sys @ [Settled]\<rparr>, snd (tick cfg e sys))"
      using prune_starts [of e ?s] by (simp add: pass_events_def tick0 reply t a)
    then show ?thesis by blast
  qed
qed

section \<open>The variable lastIPFSHash\<close>

text \<open>The callback that detects a new hash assigns the variable and calls
  \<^verbatim>\<open>node.pin.add\<close>; the chain then awaits the answer.\<close>

lemma txt_assigns_first:
  assumes "exited sys = None" "stage_of sys i = Resolving"
    and "resolveTxt_callback (checkpointsHostname cfg) answer = Inr h"
    and "lastIPFSHash sys \<noteq> Some h"
  shows "step cfg (TxtReply i answer) sys =
     (become i (Pinning h) (sys\<lparr>lastIPFSHash := Some h\<rparr>),
      [Log INFO (Detected h), Log INFO (Attempting h), Call (PinAdd h)])"
  using assms by (auto simp: step_def on_txt_def)

text \<open>C1, as stated, fails. The spec has \<^verbatim>\<open>lastIPFSHash\<close> keep its value when the pin-add of
  a new identifier fails. The handler assigns it when it detects the change, before it
  calls \<^verbatim>\<open>node.pin.add\<close>, and nothing restores it: after a failed pin of \<^verbatim>\<open>QmNew\<close> the
  variable holds \<^verbatim>\<open>QmNew\<close>, not \<^verbatim>\<open>QmOld\<close>.\<close>

theorem failed_pin_moves_lastIPFSHash:
  "tick default_config (world [[''dnslink=/ipfs/QmNew'']] [(''QmNew'', ''timeout'')] None [])
     \<lparr>lastIPFSHash = Some ''QmOld'', pinset = [direct ''QmOld''], exited = None, links = content []\<rparr>
   = (\<lparr>lastIPFSHash = Some ''QmNew'', pinset = [direct ''QmOld''], exited = None, links = content []\<rparr>,
      [Call (ResolveTxt ''_dnslink.ipfs.moncoin.io''), Log INFO (Detected ''QmNew''),
       Log INFO (Attempting ''QmNew''), Call (PinAdd ''QmNew''),
       Log WARN (Failure (NodeError ''timeout''))])"
  by (simp add: run)

text \<open>C1, amended. After a pass \<^verbatim>\<open>lastIPFSHash\<close> is the identifier the pass resolved,
  whether the pin-add succeeded or failed, and it is what it was when resolution failed.
  A pass whose pin-add of a new identifier fails changes nothing else and ends with the
  warning: it does not prune. The assignment is made by the callback that detects the
  change, together with the call of \<^verbatim>\<open>node.pin.add\<close> and before its answer.\<close>

theorem lastIPFSHash_follows_resolution:
  "lastIPFSHash (fst (tick cfg e s)) =
     (case getLatestCheckpointsIPFSHash (checkpointsHostname cfg) e of
        Inl err \<Rightarrow> lastIPFSHash s
      | Inr h \<Rightarrow> Some h)
   \<and> (getLatestCheckpointsIPFSHash (checkpointsHostname cfg) e = Inr h
       \<and> lastIPFSHash s \<noteq> Some h \<and> pin_add e h = Some err
      \<longrightarrow> tick cfg e s =
         (s\<lparr>lastIPFSHash := Some h\<rparr>,
          [Call (ResolveTxt (dnslink (checkpointsHostname cfg))), Log INFO (Detected h),
           Log INFO (Attempting h), Call (PinAdd h), Log WARN (Failure (NodeError err))]))
   \<and> (exited sys = None \<and> stage_of sys i = Resolving
       \<and> resolveTxt_callback (checkpointsHostname cfg) answer = Inr h
       \<and> lastIPFSHash sys \<noteq> Some h
      \<longrightarrow> step cfg (TxtReply i answer) sys =
         (become i (Pinning h) (sys\<lparr>lastIPFSHash := Some h\<rparr>),
          [Log INFO (Detected h), Log INFO (Attempting h), Call (PinAdd h)]))"
  using tick_lastIPFSHash [of cfg e s] tick_pin_failed [of cfg e h s err]
    txt_assigns_first [of sys i cfg answer h]
  by blast

theorem lastIPFSHash_follows_resolution_witness:
  "lastIPFSHash (fst (tick default_config
      (world [[''dnslink=/ipfs/QmNew'']] [(''QmNew'', ''timeout'')] None [])
      \<lparr>lastIPFSHash = Some ''QmOld'', pinset = [direct ''QmOld''], exited = None, links = content []\<rparr>))
   = Some ''QmNew''
   \<and> step default_config (TxtReply 0 (Inr [[''dnslink=/ipfs/QmNew'']]))
       (fst (step default_config Tick (boot [direct ''QmOld''] (content []))))
   = (\<lparr>lastIPFSHash = Some ''QmNew'', pinset = [direct ''QmOld''], exited = None,
        links = content [], chains = [Pinning ''QmNew'']\<rparr>,
      [Log INFO (Detected ''QmNew''), Log INFO (Attempting ''QmNew''), Call (PinAdd ''QmNew'')])"
proof -
  let ?e = "world [[''dnslink=/ipfs/QmNew'']] [(''QmNew'', ''timeout'')] None []"
  let ?s = "\<lparr>lastIPFSHash = Some ''QmOld'', pinset = [direct ''QmOld''], exited = None, links = content []\<rparr>"
  let ?sys = "fst (step default_config Tick (boot [direct ''QmOld''] (content [])))"
  have r: "getLatestCheckpointsIPFSHash (checkpointsHostname default_config) ?e = Inr ''QmNew''"
    by (simp add: getLatestCheckpointsIPFSHash_def resolveTxt_callback_def world_def pop_def)
  have a: "pin_add ?e ''QmNew'' = Some ''timeout''"
    by (simp add: world_def)
  have sys: "?sys = \<lparr>lastIPFSHash = None, pinset = [direct ''QmOld''], exited = None,
      links = content [], chains = [Resolving]\<rparr>"
    by (simp add: step_def on_tick_def boot_def)
  have c: "resolveTxt_callback (checkpointsHostname default_config)
      (Inr [[''dnslink=/ipfs/QmNew'']]) = Inr ''QmNew''"
    by (simp add: resolveTxt_callback_def pop_def)
  have st: "exited ?sys = None" "stage_of ?sys 0 = Resolving" "lastIPFSHash ?sys \<noteq> Some ''QmNew''"
    by (simp_all add: sys stage_of_def)
  from lastIPFSHash_follows_resolution [of default_config ?e ?s "''QmNew''" "''timeout''"
      ?sys 0 "Inr [[''dnslink=/ipfs/QmNew'']]"] r a c st
  show ?thesis
    by (simp add: sys become_def)
qed

text \<open>While \<^verbatim>\<open>lastIPFSHash\<close> is \<open>X\<close> and DNS answers \<open>X\<close> or fails, no event calls
  \<^verbatim>\<open>node.pin.add\<close>, however the chains of several ticks interleave; and no pass does, when
  they run one after the other.\<close>

lemma step_same_hash:
  assumes "lastIPFSHash sys = Some X"
    and "\<And>i answer Y. ev = TxtReply i answer \<Longrightarrow>
      resolveTxt_callback (checkpointsHostname cfg) answer = Inr Y \<Longrightarrow> Y = X"
  shows "add_calls (snd (step cfg ev sys)) = [] \<and> lastIPFSHash (fst (step cfg ev sys)) = Some X"
proof (cases "exited sys = None")
  case False
  with assms(1) show ?thesis by (simp add: step_def)
next
  case True
  show ?thesis
  proof (cases ev)
    case Tick
    with True assms(1) show ?thesis by (simp add: step_def on_tick_def)
  next
    case (TxtReply i answer)
    with True assms show ?thesis
      by (cases "resolveTxt_callback (checkpointsHostname cfg) answer")
        (auto simp: step_def on_txt_def catch_def then_cleanPins_def split: stage.splits)
  next
    case (AddReply i answer)
    with True assms(1) show ?thesis
      by (auto simp: step_def on_add_def catch_def then_cleanPins_def Let_def
          split: stage.splits option.splits)
  next
    case (LsReply i answer)
    with True assms(1) show ?thesis
      by (auto simp: step_def on_ls_def catch_def Let_def add_calls_PinRm
          split: stage.splits option.splits)
  next
    case (RmReply i h answer)
    with True assms(1) show ?thesis
      by (auto simp: step_def on_rm_def on_rm_late_def Let_def add_calls_Log
          split: stage.splits option.splits)
  next
    case Timeout
    with True assms(1) show ?thesis by (simp add: step_def watchdog_def)
  qed
qed

lemma run_same_hash:
  assumes "lastIPFSHash sys = Some X"
    and "\<forall>ev\<in>set evs. \<forall>i answer Y. ev = TxtReply i answer \<longrightarrow>
      resolveTxt_callback (checkpointsHostname cfg) answer = Inr Y \<longrightarrow> Y = X"
  shows "add_calls (snd (run cfg evs sys)) = [] \<and> lastIPFSHash (fst (run cfg evs sys)) = Some X"
  using assms
proof (induction evs arbitrary: sys)
  case Nil
  then show ?case by simp
next
  case (Cons ev evs)
  from Cons.prems have here: "add_calls (snd (step cfg ev sys)) = []
      \<and> lastIPFSHash (fst (step cfg ev sys)) = Some X"
    by (intro step_same_hash) auto
  from Cons.prems have "\<forall>ev\<in>set evs. \<forall>i answer Y. ev = TxtReply i answer \<longrightarrow>
      resolveTxt_callback (checkpointsHostname cfg) answer = Inr Y \<longrightarrow> Y = X"
    by simp
  from Cons.IH [OF conjunct2 [OF here] this] here show ?case
    by (simp add: split_beta add_calls_append)
qed

text \<open>C9. Once the pin-add of \<open>X\<close> has been tried and has failed, no later pass that
  resolves \<open>X\<close> again (or fails to resolve) calls \<^verbatim>\<open>node.pin.add\<close>: the comparison finds
  \<open>X\<close> in \<^verbatim>\<open>lastIPFSHash\<close>, which stays \<open>X\<close> until DNS publishes another identifier.\<close>

theorem failed_pin_not_retried:
  assumes "getLatestCheckpointsIPFSHash (checkpointsHostname cfg) e = Inr X"
    and "lastIPFSHash s \<noteq> Some X"
    and "pin_add e X = Some err"
    and "\<forall>e'\<in>set es. \<forall>Y.
      getLatestCheckpointsIPFSHash (checkpointsHostname cfg) e' = Inr Y \<longrightarrow> Y = X"
  shows "add_calls (snd (tick cfg e s)) = [X]
    \<and> failures (snd (tick cfg e s)) = [NodeError err]
    \<and> add_calls (snd (ticks cfg es (fst (tick cfg e s)))) = []
    \<and> lastIPFSHash (fst (ticks cfg es (fst (tick cfg e s)))) = Some X"
proof -
  from assms(1-3) have t: "tick cfg e s =
     (s\<lparr>lastIPFSHash := Some X\<rparr>,
      [Call (ResolveTxt (dnslink (checkpointsHostname cfg))), Log INFO (Detected X),
       Log INFO (Attempting X), Call (PinAdd X), Log WARN (Failure (NodeError err))])"
    by (rule tick_pin_failed)
  then have "lastIPFSHash (fst (tick cfg e s)) = Some X"
    by simp
  from ticks_same_hash [OF this assms(4)] t show ?thesis
    by simp
qed

theorem failed_pin_not_retried_witness:
  "add_calls (snd (ticks default_config
      [world [[''dnslink=/ipfs/QmNew'']] [] None [], dns_down ''ETIMEOUT'',
       world [[''dnslink=/ipfs/QmNew'']] [] None []]
      (fst (tick default_config
        (world [[''dnslink=/ipfs/QmNew'']] [(''QmNew'', ''timeout'')] None [])
        \<lparr>lastIPFSHash = Some ''QmOld'', pinset = [direct ''QmOld''], exited = None, links = content []\<rparr>)))) = []"
proof -
  let ?e = "world [[''dnslink=/ipfs/QmNew'']] [(''QmNew'', ''timeout'')] None []"
  let ?ok = "world [[''dnslink=/ipfs/QmNew'']] [] None []"
  have r: "getLatestCheckpointsIPFSHash (checkpointsHostname default_config) ?e = Inr ''QmNew''"
    by (simp add: getLatestCheckpointsIPFSHash_def resolveTxt_callback_def world_def pop_def)
  have a: "pin_add ?e ''QmNew'' = Some ''timeout''"
    by (simp add: world_def)
  have l: "lastIPFSHash \<lparr>lastIPFSHash = Some ''QmOld'', pinset = [direct ''QmOld''],
      exited = None, links = content []\<rparr> \<noteq> Some ''QmNew''"
    by simp
  have later: "\<forall>e'\<in>set [?ok, dns_down ''ETIMEOUT'', ?ok]. \<forall>Y.
      getLatestCheckpointsIPFSHash (checkpointsHostname default_config) e' = Inr Y \<longrightarrow> Y = ''QmNew''"
    by (simp add: getLatestCheckpointsIPFSHash_def resolveTxt_callback_def world_def dns_down_def pop_def)
  from failed_pin_not_retried [OF r l a later] show ?thesis
    by simp
qed

section \<open>The watchdog\<close>

text \<open>C2. In the test mode, with DNS down so that no pin was ever added, the watchdog
  (900000 ms in the default configuration) logs its error and calls
  \<^verbatim>\<open>process.exit(0)\<close>: the exit status is 0, the status of a completed test, where the
  claim has a failure status.\<close>

theorem watchdog_exits_zero:
  "watchdog (default_config\<lparr>isTesting := True\<rparr>)
     (fst (tick (default_config\<lparr>isTesting := True\<rparr>) (dns_down ''ENOTFOUND'') (initial [] (content []))))
   = (\<lparr>lastIPFSHash = None, pinset = [], exited = Some 0, links = content []\<rparr>,
      [Log ERROR (CouldNotPin None), Exit 0])
   \<and> watchdog_delay (default_config\<lparr>isTesting := True\<rparr>) = 900000"
  by (simp add: watchdog_def watchdog_delay_def run)

section \<open>Pruning\<close>

text \<open>C3, as stated, fails. \<^verbatim>\<open>QmB\<close> and \<^verbatim>\<open>QmC\<close> are stale, the removal of \<^verbatim>\<open>QmC\<close>
  fails. Both removals are called and \<^verbatim>\<open>QmB\<close> leaves the pin set, but the pass logs the
  failure only: no unpinned warning reports \<^verbatim>\<open>QmB\<close>.\<close>

theorem removal_failure_hides_reports:
  "tick default_config (world [[''dnslink=/ipfs/QmA'']] [] None [(''QmC'', ''not pinned'')])
     \<lparr>lastIPFSHash = Some ''QmA'', pinset = [direct ''QmA'', direct ''QmB'', direct ''QmC''],
      exited = None, links = content []\<rparr>
   = (\<lparr>lastIPFSHash = Some ''QmA'', pinset = [direct ''QmA'', direct ''QmC''], exited = None, links = content []\<rparr>,
      [Call (ResolveTxt ''_dnslink.ipfs.moncoin.io''), Call PinLs,
       Call (PinRm ''QmB''), Call (PinRm ''QmC''),
       Log WARN (Failure (NodeError ''not pinned''))])"
  by (simp add: run)

text \<open>C3, amended. When the listing succeeds every removal of the batch is called,
  whatever the others answer, and each one that succeeds takes effect in the pin set (the
  direct pin leaves it, with the indirect pins that no remaining direct pin references).
  The unpinned warnings are logged only when every removal of the batch succeeded; when one
  fails the pass logs a single warning, for the failure answered first (the removals are
  taken to answer in the order of their calls), and no unpinned warning. When the listing
  fails no removal is called and the pin set is left as it was.\<close>

theorem removal_failure_reporting:
  "rm_calls (snd (prune e s)) =
     (if pin_ls e = None then removedPins (lastIPFSHash s) (pinset s) else [])
   \<and> pinset (fst (prune e s)) =
     (if pin_ls e = None then survivors e (links s) (lastIPFSHash s) (pinset s) else pinset s)
   \<and> unpinned (snd (prune e s)) =
     (if pin_ls e = None \<and> (\<forall>h\<in>set (removedPins (lastIPFSHash s) (pinset s)). pin_rm e h = None)
      then removedPins (lastIPFSHash s) (pinset s) else [])
   \<and> failures (snd (prune e s)) =
     (case pin_ls e of
        Some err \<Rightarrow> [NodeError err]
      | None \<Rightarrow> map NodeError
          (take 1 (List.map_filter (pin_rm e) (removedPins (lastIPFSHash s) (pinset s)))))"
  by (simp only: prune_rm_calls prune_pinset prune_unpinned prune_failures map_filter_Nil simp_thms)

theorem removal_failure_reporting_witness:
  "rm_calls (snd (prune (world [] [] None [(''QmC'', ''not pinned'')])
      \<lparr>lastIPFSHash = Some ''QmA'', pinset = [direct ''QmA'', direct ''QmB'', direct ''QmC''],
       exited = None, links = content []\<rparr>)) = [''QmB'', ''QmC'']
   \<and> unpinned (snd (prune (world [] [] None [(''QmC'', ''not pinned'')])
      \<lparr>lastIPFSHash = Some ''QmA'', pinset = [direct ''QmA'', direct ''QmB'', direct ''QmC''],
       exited = None, links = content []\<rparr>)) = []
   \<and> unpinned (snd (prune (world [] [] None [])
      \<lparr>lastIPFSHash = Some ''QmA'', pinset = [direct ''QmA'', direct ''QmB'', direct ''QmC''],
       exited = None, links = content []\<rparr>)) = [''QmB'', ''QmC'']"
  using removal_failure_reporting [of "world [] [] None [(''QmC'', ''not pinned'')]"
      "\<lparr>lastIPFSHash = Some ''QmA'', pinset = [direct ''QmA'', direct ''QmB'', direct ''QmC''],
        exited = None, links = content []\<rparr>"]
    removal_failure_reporting [of "world [] [] None []"
      "\<lparr>lastIPFSHash = Some ''QmA'', pinset = [direct ''QmA'', direct ''QmB'', direct ''QmC''],
        exited = None, links = content []\<rparr>"]
  by (simp add: world_def direct_def)

text \<open>C7. The hashes handed to \<^verbatim>\<open>unpin\<close> are those of the listed pins whose type is not
  \<^verbatim>\<open>'indirect'\<close> and whose hash is not \<^verbatim>\<open>hashToSave\<close>; so every removal call of a pass is
  for a direct pin other than \<^verbatim>\<open>lastIPFSHash\<close>, and a pass that resolves \<open>A\<close> on a pin set
  whose only direct pin is \<open>A\<close> (with any indirect pins) calls no removal.\<close>

theorem pruning_spares_indirect:
  "set (removedPins hashToSave pins) =
     {hash p |p. p \<in> set pins \<and> type p \<noteq> ''indirect'' \<and> Some (hash p) \<noteq> hashToSave}
   \<and> (\<forall>h\<in>set (rm_calls (snd (tick cfg e s))).
         h \<in> direct_pins (pinset s) \<and> Some h \<noteq> lastIPFSHash (fst (tick cfg e s)))
   \<and> (getLatestCheckpointsIPFSHash (checkpointsHostname cfg) e = Inr A
         \<and> direct_pins (pinset s) \<subseteq> {A}
       \<longrightarrow> rm_calls (snd (tick cfg e s)) = [])"
proof -
  have a: "set (removedPins hashToSave pins) =
     {hash p |p. p \<in> set pins \<and> type p \<noteq> ''indirect'' \<and> Some (hash p) \<noteq> hashToSave}"
    by (auto simp: removedPins_filter indirect_def)
  have b: "\<forall>h\<in>set (rm_calls (snd (tick cfg e s))).
         h \<in> direct_pins (pinset s) \<and> Some h \<noteq> lastIPFSHash (fst (tick cfg e s))"
    by (auto simp: tick_rm_calls tick_lastIPFSHash removedPins_set split: sum.splits if_splits)
  have "rm_calls (snd (tick cfg e s)) = []"
    if "getLatestCheckpointsIPFSHash (checkpointsHostname cfg) e = Inr A"
      and "direct_pins (pinset s) \<subseteq> {A}"
  proof -
    from that have "set (removedPins (Some A) (pinset s)) = {}"
      by (auto simp: removedPins_set)
    with that show ?thesis
      by (simp add: tick_rm_calls)
  qed
  with a b show ?thesis by blast
qed

theorem pruning_spares_indirect_witness:
  "rm_calls (snd (tick default_config (world [[''dnslink=/ipfs/QmA'']] [] None [])
      (initial [direct ''QmA'', implied ''QmZ''] (content [(''QmA'', [''QmZ''])])))) = []"
proof -
  have r: "getLatestCheckpointsIPFSHash (checkpointsHostname default_config)
      (world [[''dnslink=/ipfs/QmA'']] [] None []) = Inr ''QmA''"
    by (simp add: getLatestCheckpointsIPFSHash_def resolveTxt_callback_def world_def pop_def)
  have d: "direct_pins (pinset (initial [direct ''QmA'', implied ''QmZ''] (content [(''QmA'', [''QmZ''])]))) \<subseteq> {''QmA''}"
    by (simp add: direct_pins_def initial_def direct_def implied_def indirect_def)
  from pruning_spares_indirect [of None "[]" default_config
      "world [[''dnslink=/ipfs/QmA'']] [] None []" "initial [direct ''QmA'', implied ''QmZ''] (content [(''QmA'', [''QmZ''])])" "''QmA''"]
    r d show ?thesis by blast
qed

section \<open>Convergence and idempotence\<close>

lemma prune_converged:
  assumes ok: "failures (snd (prune e s)) = []"
    and pins: "direct_pins (pinset s) = {A, B}" and neq: "A \<noteq> B"
    and last: "lastIPFSHash s = Some A"
  shows "direct_pins (pinset (fst (prune e s))) = {A}"
    and "set (rm_calls (snd (prune e s))) = {B}"
    and "indirect_pins (pinset (fst (prune e s))) =
      filter (\<lambda>p. hash p \<in> set (links s A)) (indirect_pins (pinset s))"
proof -
  let ?S = "\<lambda>p. indirect p \<or> Some (hash p) = lastIPFSHash s"
  have "{h \<in> {A, B}. Some h = Some A} = {A}"
    using neq by auto
  then show "direct_pins (pinset (fst (prune e s))) = {A}"
    by (simp add: prune_clean(2) [OF ok] pins last)
  have "{h. h \<in> {A, B} \<and> Some h \<noteq> Some A} = {B}"
    using neq by auto
  then have targets: "set (removedPins (lastIPFSHash s) (pinset s)) = {B}"
    by (simp only: removedPins_set pins last)
  with prune_clean(4) [OF ok] show "set (rm_calls (snd (prune e s))) = {B}"
    by simp
  have some: "removedPins (lastIPFSHash s) (pinset s) \<noteq> []"
  proof
    assume "removedPins (lastIPFSHash s) (pinset s) = []"
    with targets show False by simp
  qed
  have after: "pinset (fst (prune e s)) = retained (links s) (filter ?S (pinset s))"
    by (simp only: prune_clean(3) [OF ok] some if_False)
  have ind: "indirect_pins (filter ?S (pinset s)) = indirect_pins (pinset s)"
    unfolding indirect_pins_def filter_filter by (rule filter_cong) auto
  from pins have "A \<in> direct_pins (pinset s)"
    by simp
  then obtain a where a: "a \<in> set (pinset s)" "\<not> indirect a" "hash a = A"
    by (auto simp: direct_pins_def)
  have own: "owned (links s) (filter ?S (pinset s)) x = (x \<in> set (links s A))" for x
  proof
    assume "owned (links s) (filter ?S (pinset s)) x"
    then obtain q where "q \<in> set (pinset s)" "?S q" "\<not> indirect q" "x \<in> set (links s (hash q))"
      by (auto simp: owned_iff)
    with last show "x \<in> set (links s A)"
      by auto
  next
    assume "x \<in> set (links s A)"
    with a last have "a \<in> set (filter ?S (pinset s)) \<and> \<not> indirect a \<and> x \<in> set (links s (hash a))"
      by simp
    then show "owned (links s) (filter ?S (pinset s)) x"
      unfolding owned_iff by blast
  qed
  show "indirect_pins (pinset (fst (prune e s))) =
      filter (\<lambda>p. hash p \<in> set (links s A)) (indirect_pins (pinset s))"
    by (simp only: after indirect_pins_retained ind own)
qed

text \<open>C6, as stated, fails. In the test mode the pass pins \<^verbatim>\<open>QmA\<close> and exits before it
  prunes; in the normal mode the removal of \<^verbatim>\<open>QmB\<close> may fail. Either way \<^verbatim>\<open>QmB\<close> is
  still a direct pin after the pass.\<close>

theorem stale_pin_survives_pass:
  "tick (default_config\<lparr>isTesting := True\<rparr>) (world [[''dnslink=/ipfs/QmA'']] [] None [])
     (initial [direct ''QmA'', direct ''QmB''] (content []))
   = (\<lparr>lastIPFSHash = Some ''QmA'', pinset = [direct ''QmA'', direct ''QmB''],
        exited = Some 0, links = content []\<rparr>,
      [Call (ResolveTxt ''_dnslink.ipfs.moncoin.io''), Log INFO (Detected ''QmA''),
       Log INFO (Attempting ''QmA''), Call (PinAdd ''QmA''), Log INFO (Pinned ''QmA''),
       Log DEBUG TestCompleted, Exit 0])
   \<and> tick default_config
       (world [[''dnslink=/ipfs/QmA'']] [] None [(''QmB'', ''not pinned'')])
       (initial [direct ''QmA'', direct ''QmB''] (content []))
   = (\<lparr>lastIPFSHash = Some ''QmA'', pinset = [direct ''QmA'', direct ''QmB''],
        exited = None, links = content []\<rparr>,
      [Call (ResolveTxt ''_dnslink.ipfs.moncoin.io''), Log INFO (Detected ''QmA''),
       Log INFO (Attempting ''QmA''), Call (PinAdd ''QmA''), Log INFO (Pinned ''QmA''),
       Call PinLs, Call (PinRm ''QmB''), Log WARN (Failure (NodeError ''not pinned''))])"
  by (simp add: run)

text \<open>C6, amended. With direct pins \<open>{A, B}\<close>, \<open>A \<noteq> B\<close>, and \<open>A\<close> resolved, one pass that
  logs no failure and does not end the process (the test mode exits right after a pin)
  calls a removal for \<open>B\<close> only, none for \<open>A\<close> or for an indirect pin: the direct pins
  are \<open>{A}\<close> afterwards, and the indirect pins left are those that \<open>A\<close> references (the
  node drops the others with \<open>B\<close>).\<close>

theorem one_pass_converges:
  assumes res: "getLatestCheckpointsIPFSHash (checkpointsHostname cfg) e = Inr A"
    and pins: "direct_pins (pinset s) = {A, B}" and neq: "A \<noteq> B"
    and ok: "failures (snd (tick cfg e s)) = []"
    and alive: "exited (fst (tick cfg e s)) = None"
  shows "direct_pins (pinset (fst (tick cfg e s))) = {A}
    \<and> set (rm_calls (snd (tick cfg e s))) = {B}
    \<and> indirect_pins (pinset (fst (tick cfg e s))) =
        filter (\<lambda>p. hash p \<in> set (links s A)) (indirect_pins (pinset s))"
proof (cases rule: tick_cases [of cfg e s])
  case (unresolved err)
  with res show ?thesis by simp
next
  case (unchanged h)
  with res have h: "lastIPFSHash s = Some A" by simp
  from ok unchanged have "failures (snd (prune e s)) = []" by simp
  from prune_converged [OF this pins neq h] unchanged show ?thesis
    by simp
next
  case (pin_failed h err)
  with ok show ?thesis by simp
next
  case (test_completed h)
  with alive show ?thesis by simp
next
  case (pinned h)
  with res have h: "h = A" by simp
  from pins have "store_add (links s) A (pinset s) = pinset s"
    by (intro store_add_present) simp
  with h have same: "s\<lparr>lastIPFSHash := Some h, pinset := store_add (links s) h (pinset s)\<rparr> =
      s\<lparr>lastIPFSHash := Some A\<rparr>"
    by simp
  let ?s = "s\<lparr>lastIPFSHash := Some A\<rparr>"
  from ok pinned same have ok': "failures (snd (prune e ?s)) = []"
    by (simp add: failures_append)
  from pins have pins': "direct_pins (pinset ?s) = {A, B}"
    by simp
  have last': "lastIPFSHash ?s = Some A"
    by simp
  from prune_converged [OF ok' pins' neq last'] pinned same show ?thesis
    by (simp add: rm_calls_append)
qed

theorem one_pass_converges_witness:
  "direct_pins (pinset (fst (tick default_config (world [[''dnslink=/ipfs/QmA'']] [] None [])
      (initial [direct ''QmA'', direct ''QmB'', implied ''QmZ'', implied ''QmY'']
        (content [(''QmA'', [''QmZ'']), (''QmB'', [''QmY''])]))))) = {''QmA''}
   \<and> set (rm_calls (snd (tick default_config (world [[''dnslink=/ipfs/QmA'']] [] None [])
      (initial [direct ''QmA'', direct ''QmB'', implied ''QmZ'', implied ''QmY'']
        (content [(''QmA'', [''QmZ'']), (''QmB'', [''QmY''])]))))) = {''QmB''}
   \<and> indirect_pins (pinset (fst (tick default_config (world [[''dnslink=/ipfs/QmA'']] [] None [])
      (initial [direct ''QmA'', direct ''QmB'', implied ''QmZ'', implied ''QmY'']
        (content [(''QmA'', [''QmZ'']), (''QmB'', [''QmY''])]))))) = [implied ''QmZ'']"
proof -
  let ?e = "world [[''dnslink=/ipfs/QmA'']] [] None []"
  let ?s = "initial [direct ''QmA'', direct ''QmB'', implied ''QmZ'', implied ''QmY'']
      (content [(''QmA'', [''QmZ'']), (''QmB'', [''QmY''])])"
  have r: "getLatestCheckpointsIPFSHash (checkpointsHostname default_config) ?e = Inr ''QmA''"
    by (simp add: getLatestCheckpointsIPFSHash_def resolveTxt_callback_def world_def pop_def)
  have d: "direct_pins (pinset ?s) = {''QmA'', ''QmB''}"
    by (simp add: direct_pins_def initial_def direct_def implied_def indirect_def)
  have n: "''QmA'' \<noteq> ''QmB''"
    by simp
  have f: "failures (snd (tick default_config ?e ?s)) = []"
    by (simp add: run)
  have x: "exited (fst (tick default_config ?e ?s)) = None"
    by (simp add: run)
  have i: "filter (\<lambda>p. hash p \<in> set (links ?s ''QmA'')) (indirect_pins (pinset ?s)) =
      [implied ''QmZ'']"
    by (simp add: initial_def content_def indirect_pins_def direct_def implied_def indirect_def)
  from one_pass_converges [OF r d n f x] i show ?thesis
    by simp
qed

text \<open>C8, as stated, fails. The first pass resolves \<^verbatim>\<open>QmNew\<close> and its pin-add fails; the
  second pass resolves \<^verbatim>\<open>QmNew\<close> again, calls no pin-add and prunes: the direct pins are
  \<^verbatim>\<open>QmOld\<close> after one pass and none after two.\<close>

theorem second_pass_prunes_after_failure:
  "ticks default_config
     [world [[''dnslink=/ipfs/QmNew'']] [(''QmNew'', ''timeout'')] None []]
     \<lparr>lastIPFSHash = Some ''QmOld'', pinset = [direct ''QmOld''], exited = None,
      links = content []\<rparr>
   = (\<lparr>lastIPFSHash = Some ''QmNew'', pinset = [direct ''QmOld''], exited = None,
        links = content []\<rparr>,
      [Call (ResolveTxt ''_dnslink.ipfs.moncoin.io''), Log INFO (Detected ''QmNew''),
       Log INFO (Attempting ''QmNew''), Call (PinAdd ''QmNew''),
       Log WARN (Failure (NodeError ''timeout''))])
   \<and> ticks default_config
     [world [[''dnslink=/ipfs/QmNew'']] [(''QmNew'', ''timeout'')] None [],
      world [[''dnslink=/ipfs/QmNew'']] [(''QmNew'', ''timeout'')] None []]
     \<lparr>lastIPFSHash = Some ''QmOld'', pinset = [direct ''QmOld''], exited = None,
      links = content []\<rparr>
   = (\<lparr>lastIPFSHash = Some ''QmNew'', pinset = [], exited = None, links = content []\<rparr>,
      [Call (ResolveTxt ''_dnslink.ipfs.moncoin.io''), Log INFO (Detected ''QmNew''),
       Log INFO (Attempting ''QmNew''), Call (PinAdd ''QmNew''),
       Log WARN (Failure (NodeError ''timeout'')),
       Call (ResolveTxt ''_dnslink.ipfs.moncoin.io''), Call PinLs, Call (PinRm ''QmOld''),
       Log WARN (Unpinned ''QmOld'')])"
  by (simp add: run)

text \<open>C8, amended. A pass that resolves the identifier already in \<^verbatim>\<open>lastIPFSHash\<close> calls no
  \<^verbatim>\<open>node.pin.add\<close> and still runs the pruning step: it lists the pins and, when the
  listing succeeds, calls a removal for every direct pin other than the identifier, and
  those whose removal succeeds leave the pin set. When a pass has logged no failure, a
  second pass that resolves the same identifier leaves the pin set, hence its direct pins,
  as the first pass left it.\<close>

theorem reconciliation_idempotent:
  "(getLatestCheckpointsIPFSHash (checkpointsHostname cfg) e = Inr A \<and> lastIPFSHash s = Some A
      \<longrightarrow> add_calls (snd (tick cfg e s)) = []
        \<and> Call PinLs \<in> set (snd (tick cfg e s))
        \<and> rm_calls (snd (tick cfg e s)) =
            (if pin_ls e = None
             then map hash (filter (\<lambda>p. hash p \<noteq> A \<and> type p \<noteq> ''indirect'') (pinset s))
             else [])
        \<and> direct_pins (pinset (fst (tick cfg e s))) =
            (if pin_ls e = None
             then {h \<in> direct_pins (pinset s). h = A \<or> pin_rm e h \<noteq> None}
             else direct_pins (pinset s)))
   \<and> (getLatestCheckpointsIPFSHash (checkpointsHostname cfg) e = Inr A
       \<and> getLatestCheckpointsIPFSHash (checkpointsHostname cfg) e' = Inr A
       \<and> failures (snd (tick cfg e s)) = []
      \<longrightarrow> pinset (fst (ticks cfg [e, e'] s)) = pinset (fst (ticks cfg [e] s))
        \<and> direct_pins (pinset (fst (ticks cfg [e, e'] s))) = direct_pins (pinset (fst (ticks cfg [e] s))))"
proof -
  have skip: "add_calls (snd (tick cfg e s)) = []
        \<and> Call PinLs \<in> set (snd (tick cfg e s))
        \<and> rm_calls (snd (tick cfg e s)) =
            (if pin_ls e = None
             then map hash (filter (\<lambda>p. hash p \<noteq> A \<and> type p \<noteq> ''indirect'') (pinset s))
             else [])
        \<and> direct_pins (pinset (fst (tick cfg e s))) =
            (if pin_ls e = None
             then {h \<in> direct_pins (pinset s). h = A \<or> pin_rm e h \<noteq> None}
             else direct_pins (pinset s))"
    if "getLatestCheckpointsIPFSHash (checkpointsHostname cfg) e = Inr A" "lastIPFSHash s = Some A"
  proof -
    from that have "Call PinLs \<in> set (snd (tick cfg e s))"
      by (simp add: tick_unchanged prune_eq split: option.splits)
    moreover from that have "add_calls (snd (tick cfg e s)) = []"
      by (simp add: tick_add_calls)
    moreover from that have "rm_calls (snd (tick cfg e s)) =
            (if pin_ls e = None
             then map hash (filter (\<lambda>p. hash p \<noteq> A \<and> type p \<noteq> ''indirect'') (pinset s))
             else [])"
      by (simp add: tick_rm_calls removedPins_filter indirect_def)
    moreover from that have "direct_pins (pinset (fst (tick cfg e s))) =
            (if pin_ls e = None
             then {h \<in> direct_pins (pinset s). h = A \<or> pin_rm e h \<noteq> None}
             else direct_pins (pinset s))"
      by (simp add: tick_unchanged prune_pinset direct_pins_survivors)
    ultimately show ?thesis
      by simp
  qed
  have twice: "pinset (fst (ticks cfg [e, e'] s)) = pinset (fst (ticks cfg [e] s))"
    if res: "getLatestCheckpointsIPFSHash (checkpointsHostname cfg) e = Inr A"
      and res': "getLatestCheckpointsIPFSHash (checkpointsHostname cfg) e' = Inr A"
      and ok: "failures (snd (tick cfg e s)) = []"
  proof (cases "exited s \<noteq> None \<or> exited (fst (tick cfg e s)) \<noteq> None")
    case True
    then show ?thesis
      by (auto simp: split_beta)
  next
    case False
    let ?s' = "fst (tick cfg e s)"
    from res have last: "lastIPFSHash ?s' = Some A"
      by (simp add: tick_lastIPFSHash)
    have "direct_pins (pinset ?s') \<subseteq> {h. Some h = lastIPFSHash ?s'}"
    proof (cases rule: tick_cases [of cfg e s])
      case (unresolved err)
      with res show ?thesis by simp
    next
      case (unchanged h)
      with ok have "failures (snd (prune e s)) = []" by simp
      from prune_clean(2) [OF this] unchanged show ?thesis
        by (auto simp: prune_vars)
    next
      case (pin_failed h err)
      with ok show ?thesis by simp
    next
      case (test_completed h)
      with False show ?thesis by simp
    next
      case (pinned h)
      with ok have "failures (snd (prune e (s\<lparr>lastIPFSHash := Some h,
          pinset := store_add (links s) h (pinset s)\<rparr>))) = []"
        by (simp add: failures_append)
      from prune_clean(2) [OF this] pinned show ?thesis
        by (auto simp: prune_vars)
    qed
    then have "fst (prune e' ?s') = ?s'"
      by (rule prune_noop)
    with res' last have "fst (tick cfg e' ?s') = ?s'"
      by (simp add: tick_unchanged)
    with False show ?thesis
      by (simp add: split_beta)
  qed
  from skip twice show ?thesis by simp
qed

theorem reconciliation_idempotent_witness:
  "pinset (fst (ticks default_config
       [world [[''dnslink=/ipfs/QmA'']] [] None [], world [[''dnslink=/ipfs/QmA'']] [] None []]
       (initial [direct ''QmA'', direct ''QmB'', implied ''QmZ''] (content [(''QmA'', [''QmZ''])]))))
   = pinset (fst (ticks default_config [world [[''dnslink=/ipfs/QmA'']] [] None []]
       (initial [direct ''QmA'', direct ''QmB'', implied ''QmZ''] (content [(''QmA'', [''QmZ''])]))))
   \<and> add_calls (snd (tick default_config (world [[''dnslink=/ipfs/QmA'']] [] None [])
       \<lparr>lastIPFSHash = Some ''QmA'', pinset = [direct ''QmA'', direct ''QmB''], exited = None,
        links = content []\<rparr>)) = []
   \<and> rm_calls (snd (tick default_config (world [[''dnslink=/ipfs/QmA'']] [] None [])
       \<lparr>lastIPFSHash = Some ''QmA'', pinset = [direct ''QmA'', direct ''QmB''], exited = None,
        links = content []\<rparr>)) = [''QmB'']
   \<and> direct_pins (pinset (fst (tick default_config (world [[''dnslink=/ipfs/QmA'']] [] None [])
       \<lparr>lastIPFSHash = Some ''QmA'', pinset = [direct ''QmA'', direct ''QmB''], exited = None,
        links = content []\<rparr>))) = {''QmA''}"
proof -
  let ?e = "world [[''dnslink=/ipfs/QmA'']] [] None []"
  let ?s = "initial [direct ''QmA'', direct ''QmB'', implied ''QmZ''] (content [(''QmA'', [''QmZ''])])"
  let ?s' = "\<lparr>lastIPFSHash = Some ''QmA'', pinset = [direct ''QmA'', direct ''QmB''],
      exited = None, links = content []\<rparr>"
  have r: "getLatestCheckpointsIPFSHash (checkpointsHostname default_config) ?e = Inr ''QmA''"
    by (simp add: getLatestCheckpointsIPFSHash_def resolveTxt_callback_def world_def pop_def)
  have f: "failures (snd (tick default_config ?e ?s)) = []"
    by (simp add: run)
  have l: "lastIPFSHash ?s' = Some ''QmA''"
    by simp
  from reconciliation_idempotent [of default_config ?e "''QmA''" ?s ?e] r f
  have twice: "pinset (fst (ticks default_config [?e, ?e] ?s)) =
      pinset (fst (ticks default_config [?e] ?s))"
    by blast
  from reconciliation_idempotent [of default_config ?e "''QmA''" ?s' ?e] r l
  have "add_calls (snd (tick default_config ?e ?s')) = []
      \<and> rm_calls (snd (tick default_config ?e ?s')) =
          (if pin_ls ?e = None
           then map hash (filter (\<lambda>p. hash p \<noteq> ''QmA'' \<and> type p \<noteq> ''indirect'') (pinset ?s'))
           else [])
      \<and> direct_pins (pinset (fst (tick default_config ?e ?s'))) =
          (if pin_ls ?e = None
           then {h \<in> direct_pins (pinset ?s'). h = ''QmA'' \<or> pin_rm ?e h \<noteq> None}
           else direct_pins (pinset ?s'))"
    by blast
  then have "add_calls (snd (tick default_config ?e ?s')) = []
      \<and> rm_calls (snd (tick default_config ?e ?s')) = [''QmB'']
      \<and> direct_pins (pinset (fst (tick default_config ?e ?s'))) = {''QmA''}"
    by (auto simp: world_def direct_def direct_pins_def indirect_def)
  with twice show ?thesis
    by blast
qed

section \<open>Overlapping passes\<close>

lemma in_flight_append: "in_flight (sys\<lparr>chains := chains sys @ sts\<rparr>) =
    in_flight sys @ filter (\<lambda>st. \<not> concluded st) sts"
  by (simp add: in_flight_def)

text \<open>C4, as stated, fails. The first chain is awaiting its pin, which may take long; the
  timer fires again and the handler starts a second chain: two are in flight.\<close>

theorem second_tick_overlaps:
  "in_flight (fst (run default_config
      [Tick, TxtReply 0 (Inr [[''dnslink=/ipfs/QmX'']]), Tick] (boot [] (content []))))
   = [Pinning ''QmX'', Resolving]"
  by (simp add: step_def on_tick_def on_txt_def stage_of_def become_def in_flight_def boot_def
      resolveTxt_callback_def pop_def default_config_def)

text \<open>C4, amended. The handler has no guard: while the process runs, every tick starts a
  new chain with its DNS query at once, whatever the stage of the chains of earlier ticks,
  which stay in flight beside it.\<close>

theorem tick_starts_chain:
  "exited sys = None \<Longrightarrow>
   in_flight (fst (step cfg Tick sys)) = in_flight sys @ [Resolving]
   \<and> snd (step cfg Tick sys) = [Call (ResolveTxt (dnslink (checkpointsHostname cfg)))]"
  by (simp add: step_def on_tick_def in_flight_append)

theorem tick_starts_chain_witness:
  "in_flight (fst (step default_config Tick (fst (step default_config Tick (boot [] (content []))))))
   = [Resolving, Resolving]"
proof -
  have a: "exited (fst (step default_config Tick (boot [] (content [])))) = None"
    by (simp add: step_def on_tick_def boot_def)
  have b: "in_flight (fst (step default_config Tick (boot [] (content [])))) = [Resolving]"
    by (simp add: step_def on_tick_def boot_def in_flight_def)
  from tick_starts_chain [OF a, of default_config] b show ?thesis
    by simp
qed

end
